theory Spec2Isabelle
  imports Complex_Main "HOL-Library.Char_ord" "HOL-Library.List_Lexorder"
begin

section \<open>Go arithmetic and durations\<close>

text \<open>
  Go's \<open>int\<close>, \<open>int64\<close> and \<open>time.Duration\<close> values are modelled as mathematical
  integers. The only arithmetic the rate limiter registry performs on them is
  \<open>time.Minute / time.Duration(n)\<close> and \<open>n / 10\<close>; neither can overflow, so no
  wrap-around is written out. Go's \<open>/\<close> on integers truncates toward zero and
  panics when a non-constant divisor is zero.
\<close>

datatype panic = DivideByZero

definition quot :: "int \<Rightarrow> int \<Rightarrow> int" where
  \<comment> \<open>Go's integer quotient for a non-zero divisor: truncated toward zero.\<close>
  "quot a b = sgn a * sgn b * (\<bar>a\<bar> div \<bar>b\<bar>)"

type_synonym Duration = int \<comment> \<open>nanoseconds, as \<open>time.Duration\<close>\<close>
type_synonym Time = int \<comment> \<open>an instant, in nanoseconds after the zero \<open>time.Time\<close>\<close>

definition Second :: Duration where
  "Second = 1000000000"

definition Minute :: Duration where
  "Minute = 60 * Second"

section \<open>The token bucket of golang.org/x/time/rate\<close>

text \<open>
  The registry stores \<open>*rate.Limiter\<close> values of the external package
  \<open>golang.org/x/time/rate\<close>. The package is modelled after its published
  behaviour: \<open>Every\<close>, \<open>NewLimiter\<close> (a limiter starts full) and \<open>Allow\<close>, which is
  \<open>reserveN(now, 1, 0)\<close>. The clock read by \<open>Allow\<close> (\<open>time.Now()\<close>) is an explicit
  argument. A \<open>rate.Limit\<close> is either \<open>rate.Inf\<close> or a number of tokens per
  second; \<open>Every\<close> never returns the rate zero, so the branch of \<open>reserveN\<close> for
  it is not reached from the registry.

  The package computes with \<open>float64\<close>; the model computes with exact
  rationals. The two agree where nothing is rounded: on the infinite rate, on
  a bucket whose burst is zero, and on requests made at one instant, where no
  time has passed and the token counts are whole numbers. When a token has
  been regained after some time has passed depends on the rounding, and no
  statement below is about that.
\<close>

datatype Limit = Inf_limit | PerSecond rat

definition Every :: "Duration \<Rightarrow> Limit" where
  "Every interval =
     (if interval \<le> 0 then Inf_limit
      else PerSecond (1 / (of_int interval / of_int Second)))"

record Limiter =
  limit :: Limit
  burst :: int
  tokens :: rat
  last_t :: Time

definition NewLimiter :: "Limit \<Rightarrow> int \<Rightarrow> Limiter" where
  "NewLimiter r b = \<lparr>limit = r, burst = b, tokens = of_int b, last_t = 0\<rparr>"

definition tokensFromDuration :: "rat \<Rightarrow> Duration \<Rightarrow> rat" where
  "tokensFromDuration r d = (if r \<le> 0 then 0 else (of_int d / of_int Second) * r)"

definition durationFromTokens :: "rat \<Rightarrow> rat \<Rightarrow> Duration option" where
  \<comment> \<open>\<open>None\<close> is \<open>InfDuration\<close>; the conversion to \<open>time.Duration\<close> truncates.\<close>
  "durationFromTokens r tok =
     (if r \<le> 0 then None
      else let duration = (tok / r) * of_int Second
           in if duration > 9223372036854775807 then None
              else Some (if 0 \<le> duration then \<lfloor>duration\<rfloor> else \<lceil>duration\<rceil>))"

definition advance :: "Limiter \<Rightarrow> rat \<Rightarrow> Time \<Rightarrow> rat" where
  "advance lm r t =
     (let lst = (if t < last_t lm then t else last_t lm);
          elapsed = t - lst;
          delta = tokensFromDuration r elapsed;
          tok = tokens lm + delta
      in if tok > of_int (burst lm) then of_int (burst lm) else tok)"

definition reserveN :: "Limiter \<Rightarrow> Time \<Rightarrow> int \<Rightarrow> Duration \<Rightarrow> bool \<times> Limiter" where
  "reserveN lm t n maxFutureReserve =
     (case limit lm of
        Inf_limit \<Rightarrow> (True, lm)
      | PerSecond r \<Rightarrow>
          if r = 0 then
            (if burst lm \<ge> n then (True, lm\<lparr>burst := burst lm - n\<rparr>) else (False, lm))
          else
            let tok = advance lm r t - of_int n;
                waitOk = (if tok < 0
                          then (case durationFromTokens r (- tok) of
                                  None \<Rightarrow> False
                                | Some w \<Rightarrow> w \<le> maxFutureReserve)
                          else 0 \<le> maxFutureReserve);
                ok = (n \<le> burst lm \<and> waitOk)
            in if ok then (True, lm\<lparr>tokens := tok, last_t := t\<rparr>) else (False, lm))"

definition Allow :: "Limiter \<Rightarrow> Time \<Rightarrow> bool \<times> Limiter" where
  "Allow lm now = reserveN lm now 1 0"

section \<open>The rate limiter registry\<close>

text \<open>
  \<open>limiters.visitors\<close> is a \<open>map[string]*rate.Limiter\<close>: the map holds pointers,
  and \<open>Allow\<close> mutates the limiter a pointer refers to. The model keeps the
  pointers: \<open>visitors\<close> maps an IP to a reference, \<open>heap\<close> gives the limiter a
  reference points to, and \<open>next_ref\<close> is the reference the next allocation
  returns. \<open>noLimitIPs\<close>, a \<open>map[string]struct{}\<close>, is the set of its keys.
  Here each call is one atomic step; the next section splits a call into the
  parts its locks make atomic and interleaves the calls of several callers.

  References not yet allocated hold a limiter that nothing reads.

  A call either returns or panics; the registry it leaves behind is returned in
  both cases, since the router's \<open>middleware.Recoverer\<close> recovers a handler's
  panic and the process goes on serving.
\<close>

type_synonym ref = nat

record limiters =
  noLimitIPs :: "string set"
  visitors :: "string \<rightharpoonup> ref"
  heap :: "ref \<Rightarrow> Limiter"
  next_ref :: ref

definition tryAddVisitor ::
  "limiters \<Rightarrow> string \<Rightarrow> int \<Rightarrow> (panic + ref \<times> bool) \<times> limiters" where
  "tryAddVisitor ls ip requestsPerMinuteLimit =
     (case visitors ls ip of
        Some limiter \<Rightarrow> (Inr (limiter, False), ls)
      | None \<Rightarrow>
          if requestsPerMinuteLimit = 0 then (Inl DivideByZero, ls)
          else
            let lmt = Every (quot Minute requestsPerMinuteLimit);
                limiter = next_ref ls
            in (Inr (limiter, True),
                ls\<lparr>visitors := (visitors ls)(ip \<mapsto> limiter),
                   heap := (heap ls)(limiter := NewLimiter lmt (quot requestsPerMinuteLimit 10)),
                   next_ref := Suc limiter\<rparr>))"

definition getVisitor ::
  "limiters \<Rightarrow> string \<Rightarrow> int \<Rightarrow> (panic + ref \<times> bool) \<times> limiters" where
  "getVisitor ls ip requestsPerMinuteLimit =
     (case visitors ls ip of
        None \<Rightarrow> tryAddVisitor ls ip requestsPerMinuteLimit
      | Some limiter \<Rightarrow> (Inr (limiter, False), ls))"

definition AllowVisitor ::
  "limiters \<Rightarrow> string \<Rightarrow> int \<Rightarrow> Time \<Rightarrow> (panic + bool \<times> bool) \<times> limiters" where
  \<comment> \<open>The result pair is \<open>(allowed, added)\<close>; \<open>now\<close> is the clock \<open>Allow\<close> reads.\<close>
  "AllowVisitor ls ip requestsPerMinuteLimit now =
     (if ip \<in> noLimitIPs ls then (Inr (True, False), ls)
      else
        case getVisitor ls ip requestsPerMinuteLimit of
          (Inl p, ls') \<Rightarrow> (Inl p, ls')
        | (Inr (limiter, added), ls') \<Rightarrow>
            let (ok, lm') = Allow (heap ls' limiter) now
            in (Inr (ok, added), ls'\<lparr>heap := (heap ls')(limiter := lm')\<rparr>))"

definition new_limiters :: "string list \<Rightarrow> limiters" where
  \<comment> \<open>The registry as \<open>NewServer\<close> builds it: no visitor, the exempt IPs of \<open>cfg.NoLimit\<close>.\<close>
  "new_limiters noLimit =
     \<lparr>noLimitIPs = set noLimit, visitors = Map.empty,
      heap = (\<lambda>_. NewLimiter Inf_limit 0), next_ref = 0\<rparr>"

fun run_visits ::
  "limiters \<Rightarrow> int \<Rightarrow> (string \<times> Time) list \<Rightarrow> (panic + bool \<times> bool) list \<times> limiters" where
  \<comment> \<open>A sequence of requests \<open>(ip, arrival time)\<close> under one configured limit.\<close>
  "run_visits ls rpm [] = ([], ls)"
| "run_visits ls rpm ((ip, now) # rest) =
     (let (r, ls') = AllowVisitor ls ip rpm now;
          (rs, ls'') = run_visits ls' rpm rest
      in (r # rs, ls''))"

section \<open>Concurrent callers\<close>

text \<open>
  Callers of \<open>AllowVisitor\<close> run concurrently, one per request. What one caller
  does falls into sections that the locks make atomic: the lookup in
  \<open>getVisitor\<close> under the read lock (with the test of \<open>noLimitIPs\<close> before it,
  a map nothing writes after construction); \<open>tryAddVisitor\<close> under the write
  lock, which looks the IP up again before it creates; and \<open>limiter.Allow()\<close>
  under the limiter's own mutex. A caller's \<open>stage\<close> says which section comes
  next and what the caller holds in its local variables: \<open>Missed\<close> after a
  lookup that found nothing, \<open>Holding limiter added\<close> before \<open>Allow\<close>,
  \<open>Returned\<close> with the limiter used (none for an exempt IP) and the pair
  \<open>(allowed, added)\<close>. \<open>visit_step\<close> runs a caller's next section.
  \<open>interleave\<close> runs the sections of several callers for one IP in the order
  of a schedule; each entry of the schedule names the caller that moves and
  the clock it reads. That the locks exclude each other is taken from
  \<open>sync\<close>.
\<close>

datatype stage =
  Start
| Missed
| Holding ref bool
| Returned "ref option" bool bool
| Panicked panic

fun visit_step :: "limiters \<Rightarrow> string \<Rightarrow> int \<Rightarrow> Time \<Rightarrow> stage \<Rightarrow> stage \<times> limiters" where
  "visit_step ls ip rpm now Start =
     (if ip \<in> noLimitIPs ls then (Returned None True False, ls)
      else
        case visitors ls ip of
          None \<Rightarrow> (Missed, ls)
        | Some limiter \<Rightarrow> (Holding limiter False, ls))"
| "visit_step ls ip rpm now Missed =
     (case tryAddVisitor ls ip rpm of
        (Inl p, ls') \<Rightarrow> (Panicked p, ls')
      | (Inr (limiter, added), ls') \<Rightarrow> (Holding limiter added, ls'))"
| "visit_step ls ip rpm now (Holding limiter added) =
     (let (ok, lm') = Allow (heap ls limiter) now
      in (Returned (Some limiter) ok added, ls\<lparr>heap := (heap ls)(limiter := lm')\<rparr>))"
| "visit_step ls ip rpm now (Returned l ok added) = (Returned l ok added, ls)"
| "visit_step ls ip rpm now (Panicked p) = (Panicked p, ls)"

fun interleave ::
  "limiters \<Rightarrow> string \<Rightarrow> int \<Rightarrow> stage list \<Rightarrow> (nat \<times> Time) list \<Rightarrow> stage list \<times> limiters" where
  "interleave ls ip rpm cs [] = (cs, ls)"
| "interleave ls ip rpm cs ((i, now) # sched) =
     (if i < length cs
      then interleave (snd (visit_step ls ip rpm now (cs ! i))) ip rpm
             (cs[i := fst (visit_step ls ip rpm now (cs ! i))]) sched
      else interleave ls ip rpm cs sched)"

fun result_of :: "stage \<Rightarrow> (panic + bool \<times> bool) option" where
  "result_of (Returned l ok added) = Some (Inr (ok, added))"
| "result_of (Panicked p) = Some (Inl p)"
| "result_of Start = None"
| "result_of Missed = None"
| "result_of (Holding limiter added) = None"

fun created :: "stage \<Rightarrow> bool" where
  \<comment> \<open>The caller's \<open>added\<close> is true: it is the one that created the bucket.\<close>
  "created (Holding limiter added) = added"
| "created (Returned l ok added) = added"
| "created Start = False"
| "created Missed = False"
| "created (Panicked p) = False"

fun bucket_of :: "stage \<Rightarrow> ref option" where
  "bucket_of (Holding limiter added) = Some limiter"
| "bucket_of (Returned l ok added) = l"
| "bucket_of Start = None"
| "bucket_of Missed = None"
| "bucket_of (Panicked p) = None"

fun idle :: "stage \<Rightarrow> bool" where
  \<comment> \<open>The caller holds no bucket and has returned nothing.\<close>
  "idle Start = True"
| "idle Missed = True"
| "idle (Panicked p) = True"
| "idle (Holding limiter added) = False"
| "idle (Returned l ok added) = False"

fun took_token :: "stage \<Rightarrow> bool" where
  \<comment> \<open>The caller's \<open>Allow\<close> on a bucket returned true.\<close>
  "took_token (Returned (Some limiter) ok added) = ok"
| "took_token (Returned None ok added) = False"
| "took_token Start = False"
| "took_token Missed = False"
| "took_token (Holding limiter added) = False"
| "took_token (Panicked p) = False"

fun was_refused :: "stage \<Rightarrow> bool" where
  \<comment> \<open>The caller's \<open>Allow\<close> on a bucket returned false.\<close>
  "was_refused (Returned (Some limiter) ok added) = (\<not> ok)"
| "was_refused (Returned None ok added) = False"
| "was_refused Start = False"
| "was_refused Missed = False"
| "was_refused (Holding limiter added) = False"
| "was_refused (Panicked p) = False"

text \<open>
  The invariant of the callers for one IP that had no bucket in the registry
  \<open>ls0\<close> they started from: as long as the IP has no entry nobody holds a
  bucket; once it has one, it is the reference \<open>next_ref ls0\<close>, exactly one
  caller created it, and every caller that holds a bucket holds that one.
\<close>

definition one_bucket :: "limiters \<Rightarrow> string \<Rightarrow> stage list \<Rightarrow> limiters \<Rightarrow> bool" where
  "one_bucket ls0 ip cs ls \<longleftrightarrow>
     noLimitIPs ls = noLimitIPs ls0
     \<and> (case visitors ls ip of
          None \<Rightarrow>
            visitors ls = visitors ls0 \<and> next_ref ls = next_ref ls0
            \<and> list_all idle cs
        | Some l \<Rightarrow>
            l = next_ref ls0 \<and> visitors ls = (visitors ls0)(ip \<mapsto> l)
            \<and> next_ref ls = Suc (next_ref ls0)
            \<and> length (filter created cs) = 1
            \<and> list_all (\<lambda>c. bucket_of c = None \<or> bucket_of c = Some l) cs)"

text \<open>
  The accounting of a bucket with a finite rate whose callers all read the
  same clock: the tokens left are the burst less the number of callers that
  were allowed, and a caller is refused only when none is left.
\<close>

definition exact_tokens :: "int \<Rightarrow> Time \<Rightarrow> string \<Rightarrow> stage list \<Rightarrow> limiters \<Rightarrow> bool" where
  "exact_tokens rpm now ip cs ls \<longleftrightarrow>
     (case visitors ls ip of
        None \<Rightarrow> True
      | Some l \<Rightarrow>
          limit (heap ls l) = PerSecond (of_int Second / of_int (Minute div rpm))
          \<and> burst (heap ls l) = rpm div 10
          \<and> tokens (heap ls l) = of_int (rpm div 10 - int (length (filter took_token cs)))
          \<and> int (length (filter took_token cs)) \<le> rpm div 10
          \<and> (length (filter took_token cs) = 0 \<or> last_t (heap ls l) = now)
          \<and> (length (filter was_refused cs) = 0
               \<or> int (length (filter took_token cs)) = rpm div 10))"

section \<open>Parsing the configured URLs\<close>

text \<open>
  \<open>NewServer\<close> decides whether a configured URL is acceptable by calling
  \<open>url.Parse\<close> of the standard library and nothing else. The model follows
  \<open>url.Parse\<close> as far as its errors go: which raw strings it rejects, and with
  which error. The URL it returns is kept symbolic: \<open>Parsed s\<close> is the URL
  \<open>url.Parse\<close> returns for \<open>s\<close>, and \<open>Resolved u r\<close> is the URL
  \<open>u.ResolveReference(r)\<close> returns. \<open>parseAuthority\<close>, the check of the
  \<open>user:password@host:port\<close> part, is an argument: \<open>None\<close> when it accepts,
  the error otherwise.
\<close>

datatype url = Parsed string | Resolved url url

datatype parse_error =
  InvalidControlCharacter
| MissingProtocolScheme
| FirstPathSegmentColon
| EscapeError string
| AuthorityError string

definition stringContainsCTLByte :: "string \<Rightarrow> bool" where
  "stringContainsCTLByte s = list_ex (\<lambda>b. b < CHR 0x20 \<or> b = CHR 0x7F) s"

definition isLetter :: "char \<Rightarrow> bool" where
  "isLetter c \<longleftrightarrow> (CHR ''a'' \<le> c \<and> c \<le> CHR ''z'') \<or> (CHR ''A'' \<le> c \<and> c \<le> CHR ''Z'')"

definition isDigit :: "char \<Rightarrow> bool" where
  "isDigit c \<longleftrightarrow> CHR ''0'' \<le> c \<and> c \<le> CHR ''9''"

definition ishex :: "char \<Rightarrow> bool" where
  "ishex c \<longleftrightarrow> isDigit c \<or> (CHR ''a'' \<le> c \<and> c \<le> CHR ''f'') \<or> (CHR ''A'' \<le> c \<and> c \<le> CHR ''F'')"

fun getScheme_loop :: "string \<Rightarrow> string \<Rightarrow> string \<Rightarrow> parse_error + string \<times> string" where
  \<comment> \<open>The loop of \<open>getScheme\<close>: the raw URL, the bytes passed so far, the bytes to come.\<close>
  "getScheme_loop rawURL pre [] = Inr ([], rawURL)"
| "getScheme_loop rawURL pre (c # cs) =
     (if isLetter c then getScheme_loop rawURL (pre @ [c]) cs
      else if isDigit c \<or> c = CHR ''+'' \<or> c = CHR ''-'' \<or> c = CHR ''.'' then
        (if pre = [] then Inr ([], rawURL) else getScheme_loop rawURL (pre @ [c]) cs)
      else if c = CHR '':'' then
        (if pre = [] then Inl MissingProtocolScheme else Inr (pre, cs))
      else Inr ([], rawURL))"

definition getScheme :: "string \<Rightarrow> parse_error + string \<times> string" where
  "getScheme rawURL = getScheme_loop rawURL [] rawURL"

fun unescape_error :: "string \<Rightarrow> parse_error option" where
  \<comment> \<open>The error of \<open>unescape\<close> on a path or a fragment: a \<open>%\<close> not followed by two hex digits.\<close>
  "unescape_error [] = None"
| "unescape_error (c # cs) =
     (if c \<noteq> CHR ''%'' then unescape_error cs
      else
        case cs of
          a # b # rest \<Rightarrow>
            if ishex a \<and> ishex b then unescape_error rest else Some (EscapeError (take 3 (c # cs)))
        | _ \<Rightarrow> Some (EscapeError (take 3 (c # cs))))"

definition parse_error_of :: "(string \<Rightarrow> string option) \<Rightarrow> string \<Rightarrow> parse_error option" where
  \<comment> \<open>The error of the unexported \<open>parse(rawURL, false)\<close>, \<open>None\<close> when it returns a URL.\<close>
  "parse_error_of parseAuthority rawURL =
     (if stringContainsCTLByte rawURL then Some InvalidControlCharacter
      else if rawURL = ''*'' then None
      else
        case getScheme rawURL of
          Inl err \<Rightarrow> Some err
        | Inr (scheme, rest0) \<Rightarrow>
            let rest = takeWhile (\<lambda>c. c \<noteq> CHR ''?'') rest0 in
            if take 1 rest \<noteq> ''/'' \<and> scheme \<noteq> [] then None
            else if take 1 rest \<noteq> ''/''
                    \<and> CHR '':'' \<in> set (takeWhile (\<lambda>c. c \<noteq> CHR ''/'') rest)
            then Some FirstPathSegmentColon
            else if (scheme \<noteq> [] \<or> take 3 rest \<noteq> ''///'') \<and> take 2 rest = ''//'' then
              (case parseAuthority (takeWhile (\<lambda>c. c \<noteq> CHR ''/'') (drop 2 rest)) of
                 Some msg \<Rightarrow> Some (AuthorityError msg)
               | None \<Rightarrow> unescape_error (dropWhile (\<lambda>c. c \<noteq> CHR ''/'') (drop 2 rest)))
            else unescape_error rest)"

definition error_text :: "parse_error \<Rightarrow> string" where
  "error_text e =
     (case e of
        InvalidControlCharacter \<Rightarrow> ''net/url: invalid control character in URL''
      | MissingProtocolScheme \<Rightarrow> ''missing protocol scheme''
      | FirstPathSegmentColon \<Rightarrow> ''first path segment in URL cannot contain colon''
      | EscapeError esc \<Rightarrow> ''invalid URL escape '' @ [CHR 0x22] @ esc @ [CHR 0x22]
      | AuthorityError msg \<Rightarrow> msg)"

definition url_Error :: "string \<Rightarrow> parse_error \<Rightarrow> string" where
  \<comment> \<open>The text of \<open>*url.Error\<close>; the quoting of unprintable bytes of the URL is left out.\<close>
  "url_Error rawURL e =
     ''parse '' @ [CHR 0x22] @ rawURL @ [CHR 0x22] @ '': '' @ error_text e"

definition Parse :: "(string \<Rightarrow> string option) \<Rightarrow> string \<Rightarrow> string + url" where
  "Parse parseAuthority rawURL =
     (let u = takeWhile (\<lambda>c. c \<noteq> CHR ''#'') rawURL;
          frag = drop 1 (dropWhile (\<lambda>c. c \<noteq> CHR ''#'') rawURL)
      in case parse_error_of parseAuthority u of
           Some err \<Rightarrow> Inl (url_Error u err)
         | None \<Rightarrow>
             if frag = [] then Inr (Parsed rawURL)
             else
               case unescape_error frag of
                 Some err \<Rightarrow> Inl (url_Error rawURL err)
               | None \<Rightarrow> Inr (Parsed rawURL))"

section \<open>The method matcher's constructor\<close>

text \<open>
  Modelled from the spec: \<open>newMatcher\<close> is called by \<open>NewServer\<close> but is not part
  of the sources at hand. The specification (4.1) says of it: patterns are
  exact method names or wildcard suffix patterns such as \<open>eth_*\<close>; an empty
  allow-list allows every method; "construction fails with \<open>InvalidPattern\<close>
  if a pattern is empty or contains unsupported wildcard placement (wildcard
  only as a trailing \<open>*\<close>)". The matcher built is represented by its patterns.
\<close>

definition valid_pattern :: "string \<Rightarrow> bool" where
  \<comment> \<open>Modelled from the spec: not empty, and no \<open>*\<close> except as the last character.\<close>
  "valid_pattern p \<longleftrightarrow> p \<noteq> [] \<and> CHR ''*'' \<notin> set (butlast p)"

definition newMatcher_spec :: "string list \<Rightarrow> string + string list" where
  \<comment> \<open>Modelled from the spec: \<open>newMatcher\<close>, missing from the sources.\<close>
  "newMatcher_spec patterns =
     (if list_all valid_pattern patterns then Inr patterns else Inl ''InvalidPattern'')"

section \<open>Server construction\<close>

text \<open>
  \<open>ConfigData\<close> is the resolved configuration. Its fields carry the prefix
  \<open>cfg_\<close> here, since \<open>Allow\<close> already names the limiter's method. The two
  \<open>uint64\<close> fields are only copied, so they are natural numbers.
\<close>

record ConfigData =
  cfg_Port :: string
  cfg_URL :: string
  cfg_WSURL :: string
  cfg_Allow :: "string list"
  cfg_RPM :: int
  cfg_NoLimit :: "string list"
  cfg_BlockRangeLimit :: nat
  cfg_MinGasPrice :: nat

text \<open>
  \<open>Server\<close> embeds \<open>myTransport\<close>, which embeds the matcher and the limiters.
  \<open>'u\<close> is \<open>*url.URL\<close> and \<open>'m\<close> the matcher type. The reverse proxy and the
  WebSocket proxy are represented by the URL they were built for
  (\<open>httputil.NewSingleHostReverseProxy(url)\<close>, \<open>NewProxy(wsurl)\<close>).
\<close>

record ('u, 'm) Server =
  target :: 'u
  proxy :: 'u
  wsProxy :: 'u
  requestsPerMinuteLimit :: int
  minGasPrice :: nat
  blockRangeLimit :: nat
  url :: string
  matcher :: 'm
  registry :: limiters

text \<open>
  The standard library and the matcher constructor are arguments of the model:
  \<open>parse\<close> is the package function \<open>url.Parse\<close>, \<open>resolve\<close> is
  \<open>(*url.URL).ResolveReference\<close>, \<open>newMatcher\<close> is the repository's
  \<open>newMatcher\<close>; an error is its message. The method \<open>(*url.URL).Parse\<close> of the
  standard library parses its argument and resolves it against the receiver.
\<close>

definition URL_Parse ::
  "(string \<Rightarrow> string + 'u) \<Rightarrow> ('u \<Rightarrow> 'u \<Rightarrow> 'u) \<Rightarrow> 'u \<Rightarrow> string \<Rightarrow> string + 'u" where
  "URL_Parse parse resolve u ref =
     (case parse ref of Inl err \<Rightarrow> Inl err | Inr refURL \<Rightarrow> Inr (resolve u refURL))"

text \<open>
  In \<open>NewServer\<close> the first statement declares a local variable \<open>url\<close> of type
  \<open>*url.URL\<close>. From the second statement on, \<open>url\<close> is that variable and no
  longer the package, so \<open>url.Parse(cfg.WSURL)\<close> is the method call.
\<close>

definition NewServer ::
  "(string \<Rightarrow> string + 'u) \<Rightarrow> ('u \<Rightarrow> 'u \<Rightarrow> 'u) \<Rightarrow> (string list \<Rightarrow> string + 'm)
     \<Rightarrow> ConfigData \<Rightarrow> string + ('u, 'm) Server" where
  "NewServer parse resolve newMatcher cfg =
     (case parse (cfg_URL cfg) of
        Inl err \<Rightarrow> Inl err
      | Inr url_v \<Rightarrow>
          (case URL_Parse parse resolve url_v (cfg_WSURL cfg) of
             Inl err \<Rightarrow> Inl err
           | Inr wsurl \<Rightarrow>
               (case newMatcher (cfg_Allow cfg) of
                  Inl err \<Rightarrow> Inl err
                | Inr mt \<Rightarrow>
                    Inr \<lparr>target = url_v, proxy = url_v, wsProxy = wsurl,
                         requestsPerMinuteLimit = cfg_RPM cfg,
                         minGasPrice = cfg_MinGasPrice cfg,
                         blockRangeLimit = cfg_BlockRangeLimit cfg,
                         url = cfg_URL cfg,
                         matcher = mt,
                         registry = new_limiters (cfg_NoLimit cfg)\<rparr>)))"

text \<open>
  \<open>run\<close> sorts the two lists, builds the server, registers the routes and calls
  \<open>http.ListenAndServe\<close>. Its outcome is either the startup error it returns
  before listening, or the address and the server it serves with.
\<close>

datatype ('u, 'm) outcome =
  StartupError string
| Serving string "('u, 'm) Server"

definition run ::
  "(string \<Rightarrow> string + 'u) \<Rightarrow> ('u \<Rightarrow> 'u \<Rightarrow> 'u) \<Rightarrow> (string list \<Rightarrow> string + 'm)
     \<Rightarrow> ConfigData \<Rightarrow> ('u, 'm) outcome" where
  "run parse resolve newMatcher cfg =
     (let cfg' = cfg\<lparr>cfg_Allow := sort (cfg_Allow cfg), cfg_NoLimit := sort (cfg_NoLimit cfg)\<rparr>
      in case NewServer parse resolve newMatcher cfg' of
           Inl err \<Rightarrow> StartupError (''failed to start server: '' @ err)
         | Inr server \<Rightarrow> Serving ('':'' @ cfg_Port cfg') server)"

section \<open>Routes and handlers\<close>

text \<open>
  A request is the method and the path the router routes on. The method is
  any string: the router knows nine methods and answers every other one with
  405 itself.

  A \<open>ResponseWriter\<close> is the response under construction as \<open>net/http\<close> keeps
  it: \<open>header\<close> is the map \<open>Header()\<close> returns, which a handler may change at any
  time; \<open>wrote\<close> is the status together with the copy of the header map taken
  when the status is written, and only that copy reaches the client, so a
  header set after the status is written is not sent; \<open>hijacked\<close> says that
  the handler has taken the connection over, after which nothing written to
  the writer is sent. \<open>finish\<close> is what the server does when the handler
  returns: unless the connection was hijacked, a response with no status yet
  is sent with status 200. \<open>Header().Set\<close> stores the key as given
  (\<open>net/http\<close> normalises its letter case; HTTP header names are
  case-insensitive).
\<close>

record Request =
  req_method :: string
  req_path :: string

record ResponseWriter =
  header :: "string \<rightharpoonup> string list"
  wrote :: "(nat \<times> (string \<rightharpoonup> string list)) option"
  body :: string
  hijacked :: bool

definition new_writer :: ResponseWriter where
  "new_writer = \<lparr>header = Map.empty, wrote = None, body = [], hijacked = False\<rparr>"

definition Header_Set :: "string \<Rightarrow> string \<Rightarrow> ResponseWriter \<Rightarrow> ResponseWriter" where
  "Header_Set k v w = w\<lparr>header := (header w)(k \<mapsto> [v])\<rparr>"

definition Header_Add :: "string \<Rightarrow> string \<Rightarrow> ResponseWriter \<Rightarrow> ResponseWriter" where
  "Header_Add k v w =
     w\<lparr>header := (header w)(k \<mapsto> (case header w k of None \<Rightarrow> [v] | Some vs \<Rightarrow> vs @ [v]))\<rparr>"

definition Header_Del :: "string \<Rightarrow> ResponseWriter \<Rightarrow> ResponseWriter" where
  "Header_Del k w = w\<lparr>header := (header w)(k := None)\<rparr>"

definition WriteHeader :: "nat \<Rightarrow> ResponseWriter \<Rightarrow> ResponseWriter" where
  "WriteHeader code w =
     (if hijacked w \<or> wrote w \<noteq> None then w else w\<lparr>wrote := Some (code, header w)\<rparr>)"

definition Write :: "string \<Rightarrow> ResponseWriter \<Rightarrow> ResponseWriter" where
  "Write bs w = (if hijacked w then w else (WriteHeader 200 w)\<lparr>body := body w @ bs\<rparr>)"

definition Hijack :: "ResponseWriter \<Rightarrow> ResponseWriter" where
  "Hijack w = w\<lparr>hijacked := True\<rparr>"

definition io_Copy :: "ResponseWriter \<Rightarrow> string \<Rightarrow> ResponseWriter" where
  \<comment> \<open>Copying from a \<open>bytes.Reader\<close> with no byte left writes nothing.\<close>
  "io_Copy w src = (if src = [] then w else Write src w)"

definition finish :: "ResponseWriter \<Rightarrow> ResponseWriter" where
  "finish w = WriteHeader 200 w"

definition status :: "ResponseWriter \<Rightarrow> nat option" where
  "status w = map_option fst (wrote w)"


text \<open>
  What a forwarder does with the writer it is given is a sequence of the
  operations a \<open>ResponseWriter\<close> offers: changes of the header map,
  \<open>WriteHeader\<close>, \<open>Write\<close>, and \<open>Hijack\<close> (after which the forwarder answers on
  the raw connection, as a WebSocket upgrade does).
\<close>

datatype wop =
  OpHeaderSet string string
| OpHeaderAdd string string
| OpHeaderDel string
| OpWriteHeader nat
| OpWrite string
| OpHijack

fun apply_op :: "wop \<Rightarrow> ResponseWriter \<Rightarrow> ResponseWriter" where
  "apply_op (OpHeaderSet k v) w = Header_Set k v w"
| "apply_op (OpHeaderAdd k v) w = Header_Add k v w"
| "apply_op (OpHeaderDel k) w = Header_Del k w"
| "apply_op (OpWriteHeader code) w = WriteHeader code w"
| "apply_op (OpWrite bs) w = Write bs w"
| "apply_op OpHijack w = Hijack w"

definition apply_ops :: "wop list \<Rightarrow> ResponseWriter \<Rightarrow> ResponseWriter" where
  "apply_ops ops w = fold apply_op ops w"

text \<open>
  \<open>httputil.ReverseProxy.ServeHTTP\<close>, as \<open>NewSingleHostReverseProxy\<close> configures
  it (no \<open>ModifyResponse\<close>, the default error handler), does one round trip
  through its transport, here the server's policy transport. When the round
  trip fails it writes status 502. When it returns a response, the proxy adds
  each header of the response to the writer's header map, writes the
  response's status and copies its body. (For a 101 response it sends the same
  merged headers on the connection it takes over.) A round trip here ends in
  an error or in a final response; interim (1xx) responses that an upstream
  may send before the final one are not modelled.

  \<open>WebsocketProxy.ServeHTTP\<close> is not part of the sources at hand; what it does
  with the writer is an argument, a sequence of operations for the upstream
  and the request.
\<close>

datatype round_trip =
  RoundTripError
| RoundTripResponse nat "(string \<times> string) list" string

fun ReverseProxy_ServeHTTP :: "round_trip \<Rightarrow> wop list" where
  "ReverseProxy_ServeHTTP RoundTripError = [OpWriteHeader 502]"
| "ReverseProxy_ServeHTTP (RoundTripResponse code hdrs bdy) =
     map (\<lambda>kv. OpHeaderAdd (fst kv) (snd kv)) hdrs @ [OpWriteHeader code]
       @ (if bdy = [] then [] else [OpWrite bdy])"

definition HomePage :: "ResponseWriter \<Rightarrow> Request \<Rightarrow> ResponseWriter" where
  "HomePage w r = (let homepage = [] in io_Copy w homepage)"

definition RPCProxy ::
  "('u \<Rightarrow> Request \<Rightarrow> round_trip) \<Rightarrow> ('u, 'm) Server \<Rightarrow> ResponseWriter \<Rightarrow> Request
     \<Rightarrow> ResponseWriter" where
  "RPCProxy roundtrip p w r =
     apply_ops (ReverseProxy_ServeHTTP (roundtrip (proxy p) r))
       (Header_Set ''X-rpc-proxy'' ''rpc-proxy'' w)"

definition WSProxy ::
  "('u \<Rightarrow> Request \<Rightarrow> wop list) \<Rightarrow> ('u, 'm) Server \<Rightarrow> ResponseWriter \<Rightarrow> Request
     \<Rightarrow> ResponseWriter" where
  "WSProxy wsServeHTTP p w r =
     apply_ops (wsServeHTTP (wsProxy p) r) (Header_Set ''X-rpc-proxy'' ''rpc-proxy'' w)"

text \<open>
  The routes \<open>run\<close> registers on the chi router, in its order:
  \<open>Get("/")\<close>, \<open>Head("/")\<close>, \<open>HandleFunc("/*")\<close>, \<open>HandleFunc("/ws")\<close>. The router
  answers a method it does not know with 405, whatever the path is. It routes
  an empty path as \<open>/\<close>, prefers a static route to the catch-all, and falls
  through to the catch-all when the static route has no handler for the
  method. A path that does not begin with \<open>/\<close> matches no route and is answered
  with 404. The middleware in front of the router (request id, recoverer,
  CORS) is not modelled: a request is one that reaches the router.
\<close>

datatype route =
  RouteHomePage | RouteHead | RouteRPCProxy | RouteWSProxy
| RouteMethodNotAllowed | RouteNotFound

definition chi_methods :: "string list" where
  "chi_methods =
     [''CONNECT'', ''DELETE'', ''GET'', ''HEAD'', ''OPTIONS'', ''PATCH'', ''POST'', ''PUT'',
      ''TRACE'']"

definition route_of :: "string \<Rightarrow> string \<Rightarrow> route" where
  "route_of m p =
     (if m \<notin> set chi_methods then RouteMethodNotAllowed
      else
        let routePath = (if p = [] then ''/'' else p) in
        if routePath = ''/'' then
          (if m = ''GET'' then RouteHomePage
           else if m = ''HEAD'' then RouteHead
           else RouteRPCProxy)
        else if routePath = ''/ws'' then RouteWSProxy
        else if take 1 routePath = ''/'' then RouteRPCProxy
        else RouteNotFound)"

definition methodNotAllowedHandler :: "ResponseWriter \<Rightarrow> ResponseWriter" where
  "methodNotAllowedHandler w = Write [] (WriteHeader 405 w)"

definition http_NotFound :: "ResponseWriter \<Rightarrow> ResponseWriter" where
  "http_NotFound w =
     Write (''404 page not found'' @ [CHR 0x0A])
       (WriteHeader 404
         (Header_Set ''X-Content-Type-Options'' ''nosniff''
           (Header_Set ''Content-Type'' ''text/plain; charset=utf-8'' w)))"

datatype 'u upstream = HTTPUpstream 'u | WSUpstream 'u

definition serve ::
  "('u \<Rightarrow> Request \<Rightarrow> round_trip) \<Rightarrow> ('u \<Rightarrow> Request \<Rightarrow> wop list) \<Rightarrow> ('u, 'm) Server \<Rightarrow> Request
     \<Rightarrow> ResponseWriter \<times> 'u upstream list" where
  \<comment> \<open>The response sent, and the upstreams the request was handed to.\<close>
  "serve roundtrip wsServeHTTP p r =
     (case route_of (req_method r) (req_path r) of
        RouteMethodNotAllowed \<Rightarrow> (finish (methodNotAllowedHandler new_writer), [])
      | RouteNotFound \<Rightarrow> (finish (http_NotFound new_writer), [])
      | RouteHomePage \<Rightarrow> (finish (HomePage new_writer r), [])
      | RouteHead \<Rightarrow> (finish (WriteHeader 200 new_writer), [])
      | RouteRPCProxy \<Rightarrow>
          (finish (RPCProxy roundtrip p new_writer r), [HTTPUpstream (proxy p)])
      | RouteWSProxy \<Rightarrow>
          (finish (WSProxy wsServeHTTP p new_writer r), [WSUpstream (wsProxy p)]))"




section \<open>Facts about the token bucket\<close>

lemma quot_pos: "0 < a \<Longrightarrow> 0 < b \<Longrightarrow> quot a b = a div b"
  by (simp add: quot_def)

lemma quot_neg_divisor: "0 < a \<Longrightarrow> b < 0 \<Longrightarrow> quot a b \<le> 0"
  by (simp add: quot_def sgn_if pos_imp_zdiv_nonneg_iff)

lemma Every_nonpos: "i \<le> 0 \<Longrightarrow> Every i = Inf_limit"
  by (simp add: Every_def)

lemma Every_pos: "0 < i \<Longrightarrow> Every i = PerSecond (of_int Second / of_int i)"
  by (simp add: Every_def)

lemma Allow_Inf: "limit lm = Inf_limit \<Longrightarrow> Allow lm now = (True, lm)"
  by (simp add: Allow_def reserveN_def)

lemma durationFromTokens_Every:
  assumes "0 < i" "0 \<le> x" "x * of_int i \<le> 9223372036854775807"
  shows "durationFromTokens (of_int Second / of_int i) x = Some \<lfloor>x * of_int i\<rfloor>"
proof -
  have "x / (of_int Second / of_int i) * of_int Second = x * of_int i"
    by (simp add: Second_def)
  with assms show ?thesis
    by (simp add: durationFromTokens_def Let_def Second_def)
qed


lemma advance_same_instant:
  "last_t lm = now \<Longrightarrow> tokens lm \<le> of_int (burst lm) \<Longrightarrow> advance lm r now = tokens lm"
  by (simp add: advance_def tokensFromDuration_def Let_def)

lemma advance_NewLimiter:
  "advance (NewLimiter L b) r now = of_int b"
proof -
  have "0 \<le> tokensFromDuration r (now - (if now < 0 then now else 0))"
    by (simp add: tokensFromDuration_def Second_def)
  then show ?thesis
    by (auto simp add: advance_def NewLimiter_def Let_def)
qed

lemma Allow_finite:
  assumes lim: "limit lm = PerSecond (of_int Second / of_int i)"
    and i: "0 < i" "i \<le> Minute"
    and a: "advance lm (of_int Second / of_int i) now = a" "0 \<le> a"
  shows "Allow lm now =
           (if 1 \<le> burst lm \<and> (1 - a) * of_int i < 1
            then (True, lm\<lparr>tokens := a - 1, last_t := now\<rparr>) else (False, lm))"
proof -
  have nz: "of_int Second / (of_int i :: rat) \<noteq> 0"
    using i by (simp add: Second_def)
  have bound: "(1 - a) * of_int i \<le> 9223372036854775807"
  proof -
    have "(1 - a) * of_int i \<le> 1 * of_int i"
      using a i by (intro mult_right_mono) simp_all
    also have "\<dots> \<le> of_int Minute" using i by simp
    also have "\<dots> \<le> 9223372036854775807" by (simp add: Minute_def Second_def)
    finally show ?thesis .
  qed
  show ?thesis
  proof (cases "a - 1 < 0")
    case True
    then have x: "0 \<le> 1 - a" by simp
    have d: "durationFromTokens (of_int Second / of_int i) (1 - a) = Some \<lfloor>(1 - a) * of_int i\<rfloor>"
      by (rule durationFromTokens_Every [OF i(1) x bound])
    have fl: "\<lfloor>(1 - a) * of_int i\<rfloor> \<le> 0 \<longleftrightarrow> (1 - a) * of_int i < 1"
      by (simp add: floor_le_iff)
    show ?thesis
      using True lim nz a d fl
      by (simp add: Allow_def reserveN_def Let_def)
  next
    case False
    then have "1 \<le> a" by simp
    then have "(1 - a) * of_int i \<le> 0"
      using i by (simp add: mult_le_0_iff)
    then have lt: "(1 - a) * of_int i < 1" by simp
    show ?thesis
      using False lim nz a lt
      by (simp add: Allow_def reserveN_def Let_def)
  qed
qed

lemma Allow_whole_tokens:
  assumes lim: "limit lm = PerSecond (of_int Second / of_int i)"
    and i: "0 < i" "i \<le> Minute"
    and a: "advance lm (of_int Second / of_int i) now = of_int m" "0 \<le> m"
  shows "Allow lm now =
           (if 1 \<le> burst lm \<and> 1 \<le> m
            then (True, lm\<lparr>tokens := of_int (m - 1), last_t := now\<rparr>) else (False, lm))"
proof -
  have a0: "(0::rat) \<le> of_int m" using a by simp
  have "((1 - of_int m) * of_int i < (1::rat)) \<longleftrightarrow> 1 \<le> m"
  proof -
    have "(1 - of_int m) * of_int i = (of_int ((1 - m) * i) :: rat)" by simp
    moreover have "(of_int ((1 - m) * i) < (1::rat)) \<longleftrightarrow> (1 - m) * i < 1"
      by (metis of_int_less_iff of_int_1)
    moreover have "(1 - m) * i < 1 \<longleftrightarrow> 1 \<le> m"
    proof
      assume "(1 - m) * i < 1"
      show "1 \<le> m"
      proof (rule ccontr)
        assume "\<not> 1 \<le> m"
        then have "1 \<le> 1 - m" by simp
        then have "1 * i \<le> (1 - m) * i" using i by (intro mult_right_mono) simp_all
        with i \<open>(1 - m) * i < 1\<close> show False by simp
      qed
    next
      assume "1 \<le> m"
      then have "(1 - m) * i \<le> 0" using i by (simp add: mult_le_0_iff)
      then show "(1 - m) * i < 1" by simp
    qed
    ultimately show ?thesis by simp
  qed
  then show ?thesis
    using Allow_finite [OF lim i a(1) a0] by simp
qed


lemma limit_NewLimiter: "limit (NewLimiter L b) = L"
  by (simp add: NewLimiter_def)

lemma Allow_no_burst:
  "limit lm = PerSecond r \<Longrightarrow> r \<noteq> 0 \<Longrightarrow> burst lm < 1 \<Longrightarrow> Allow lm now = (False, lm)"
  by (simp add: Allow_def reserveN_def Let_def)

lemma AllowVisitor_existing:
  "ip \<notin> noLimitIPs ls \<Longrightarrow> visitors ls ip = Some p \<Longrightarrow>
   AllowVisitor ls ip rpm now =
     (Inr (fst (Allow (heap ls p) now), False),
      ls\<lparr>heap := (heap ls)(p := snd (Allow (heap ls p) now))\<rparr>)"
  by (simp add: AllowVisitor_def getVisitor_def split: prod.splits)

lemma AllowVisitor_fresh:
  "ip \<notin> noLimitIPs ls \<Longrightarrow> visitors ls ip = None \<Longrightarrow> rpm \<noteq> 0 \<Longrightarrow>
   AllowVisitor ls ip rpm now =
     (Inr (fst (Allow (NewLimiter (Every (quot Minute rpm)) (quot rpm 10)) now), True),
      ls\<lparr>visitors := (visitors ls)(ip \<mapsto> next_ref ls),
         heap := (heap ls)(next_ref ls :=
                   snd (Allow (NewLimiter (Every (quot Minute rpm)) (quot rpm 10)) now)),
         next_ref := Suc (next_ref ls)\<rparr>)"
  by (simp add: AllowVisitor_def getVisitor_def tryAddVisitor_def Let_def split: prod.splits)

lemma run_visits_Cons:
  "run_visits ls rpm ((ip, now) # rest) =
     (fst (AllowVisitor ls ip rpm now) # fst (run_visits (snd (AllowVisitor ls ip rpm now)) rpm rest),
      snd (run_visits (snd (AllowVisitor ls ip rpm now)) rpm rest))"
  by (simp add: Let_def split_beta)

lemma AllowVisitor_unlimited:
  assumes neg: "rpm < 0"
    and inv: "\<forall>a p. visitors ls a = Some p \<longrightarrow> limit (heap ls p) = Inf_limit"
  shows "(\<exists>added. fst (AllowVisitor ls ip rpm now) = Inr (True, added))
         \<and> (\<forall>a p. visitors (snd (AllowVisitor ls ip rpm now)) a = Some p
               \<longrightarrow> limit (heap (snd (AllowVisitor ls ip rpm now)) p) = Inf_limit)"
proof (cases "ip \<in> noLimitIPs ls")
  case True
  then show ?thesis using inv by (auto simp add: AllowVisitor_def)
next
  case ex: False
  show ?thesis
  proof (cases "visitors ls ip")
    case None
    have "quot Minute rpm \<le> 0"
      using neg by (intro quot_neg_divisor) (simp_all add: Minute_def Second_def)
    then have e: "Every (quot Minute rpm) = Inf_limit" by (rule Every_nonpos)
    have al: "Allow (NewLimiter Inf_limit (quot rpm 10)) now
                = (True, NewLimiter Inf_limit (quot rpm 10))"
      by (rule Allow_Inf) (simp add: NewLimiter_def)
    have nz: "rpm \<noteq> 0" using neg by simp
    show ?thesis
      using inv by (auto simp add: AllowVisitor_fresh [OF ex None nz] e al limit_NewLimiter)
  next
    case (Some p)
    then have "limit (heap ls p) = Inf_limit" using inv by simp
    then have al: "Allow (heap ls p) now = (True, heap ls p)" by (rule Allow_Inf)
    show ?thesis
      using inv by (auto simp add: AllowVisitor_existing [OF ex Some] al)
  qed
qed

lemma run_visits_unlimited:
  assumes "rpm < 0"
    and "\<forall>a p. visitors ls a = Some p \<longrightarrow> limit (heap ls p) = Inf_limit"
  shows "\<forall>r \<in> set (fst (run_visits ls rpm reqs)). \<exists>added. r = Inr (True, added)"
  using assms(2)
proof (induction reqs arbitrary: ls)
  case Nil
  then show ?case by simp
next
  case (Cons rq reqs)
  obtain ip now where rq: "rq = (ip, now)" by (cases rq)
  from AllowVisitor_unlimited [OF assms(1) Cons.prems, of ip now]
  obtain added where r: "fst (AllowVisitor ls ip rpm now) = Inr (True, added)"
    and inv': "\<forall>a p. visitors (snd (AllowVisitor ls ip rpm now)) a = Some p
               \<longrightarrow> limit (heap (snd (AllowVisitor ls ip rpm now)) p) = Inf_limit"
    by blast
  from Cons.IH [OF inv'] r show ?case
    by (simp add: rq run_visits_Cons del: run_visits.simps)
qed


lemma map_upt_Suc_shift: "map f [0..<Suc k] = f 0 # map (\<lambda>j. f (Suc j)) [0..<k]"
  by (simp add: map_upt_Suc del: upt_Suc)

lemma run_no_burst:
  assumes ex: "ip \<notin> noLimitIPs ls" and v: "visitors ls ip = Some p"
    and lim: "limit (heap ls p) = PerSecond r" "r \<noteq> 0" and b: "burst (heap ls p) < 1"
  shows "run_visits ls rpm (map (Pair ip) ts) = (map (\<lambda>_. Inr (False, False)) ts, ls)"
proof (induction ts)
  case Nil
  then show ?case by simp
next
  case (Cons t ts)
  have al: "Allow (heap ls p) t = (False, heap ls p)"
    by (rule Allow_no_burst [OF lim b])
  have st: "AllowVisitor ls ip rpm t = (Inr (False, False), ls)"
    by (simp add: AllowVisitor_existing [OF ex v] al)
  show ?case
    using Cons.IH by (simp add: run_visits_Cons st del: run_visits.simps(2))
qed

lemma run_same_instant:
  assumes i: "0 < i" "i \<le> Minute"
    and "ip \<notin> noLimitIPs ls" "visitors ls ip = Some p"
    and "heap ls p = \<lparr>limit = PerSecond (of_int Second / of_int i), burst = b,
                      tokens = of_int m, last_t = now\<rparr>"
    and "0 \<le> m" "m \<le> b"
  shows "run_visits ls rpm (replicate k (ip, now)) =
           (map (\<lambda>j. Inr (int j < m, False)) [0..<k],
            ls\<lparr>heap := (heap ls)(p :=
                 \<lparr>limit = PerSecond (of_int Second / of_int i), burst = b,
                  tokens = of_int (max 0 (m - int k)), last_t = now\<rparr>)\<rparr>)"
  using assms(3-)
proof (induction k arbitrary: ls m)
  case 0
  have mx: "max 0 (m - int 0) = m" using "0.prems"(4) by simp
  have "(heap ls)(p := \<lparr>limit = PerSecond (of_int Second / of_int i), burst = b,
                  tokens = of_int (max 0 (m - int 0)), last_t = now\<rparr>) = heap ls"
    unfolding mx "0.prems"(3) [symmetric] by (simp only: fun_upd_triv)
  then show ?case by simp
next
  case (Suc k)
  note ex = Suc.prems(1) and v = Suc.prems(2) and hp = Suc.prems(3)
    and m0 = Suc.prems(4) and mb = Suc.prems(5)
  let ?lm = "heap ls p"
  have lim: "limit ?lm = PerSecond (of_int Second / of_int i)" by (simp add: hp)
  have adv: "advance ?lm (of_int Second / of_int i) now = of_int m"
    using mb by (simp add: advance_same_instant hp)
  have al: "Allow ?lm now =
           (if 1 \<le> burst ?lm \<and> 1 \<le> m
            then (True, ?lm\<lparr>tokens := of_int (m - 1), last_t := now\<rparr>) else (False, ?lm))"
    by (rule Allow_whole_tokens [OF lim i adv m0])
  show ?case
  proof (cases "1 \<le> m")
    case True
    let ?ls' = "ls\<lparr>heap := (heap ls)(p := \<lparr>limit = PerSecond (of_int Second / of_int i), burst = b,
                  tokens = of_int (m - 1), last_t = now\<rparr>)\<rparr>"
    have step: "AllowVisitor ls ip rpm now = (Inr (True, False), ?ls')"
      using True mb by (simp add: AllowVisitor_existing [OF ex v] al) (simp add: hp)
    have rest: "run_visits ?ls' rpm (replicate k (ip, now)) =
           (map (\<lambda>j. Inr (int j < m - 1, False)) [0..<k],
            ?ls'\<lparr>heap := (heap ?ls')(p := \<lparr>limit = PerSecond (of_int Second / of_int i), burst = b,
                  tokens = of_int (max 0 (m - 1 - int k)), last_t = now\<rparr>)\<rparr>)"
      using True ex v mb by (intro Suc.IH) simp_all
    have same: "(\<lambda>j. Inr (int j < m - 1, False)) = (\<lambda>j. (Inr (int (Suc j) < m, False) :: panic + bool \<times> bool))"
      by (rule ext) auto
    have ar: "m - 1 - int k = m - int (Suc k)" by simp
    have upd: "?ls'\<lparr>heap := (heap ?ls')(p := \<lparr>limit = PerSecond (of_int Second / of_int i), burst = b,
                  tokens = of_int (max 0 (m - 1 - int k)), last_t = now\<rparr>)\<rparr>
       = ls\<lparr>heap := (heap ls)(p := \<lparr>limit = PerSecond (of_int Second / of_int i), burst = b,
                  tokens = of_int (max 0 (m - int (Suc k))), last_t = now\<rparr>)\<rparr>"
      by (simp add: ar)
    have hd: "(Inr (True, False) :: panic + bool \<times> bool) = Inr (int 0 < m, False)"
      using True by simp
    show ?thesis
      by (simp only: replicate_Suc run_visits_Cons step fst_conv snd_conv rest upd
            map_upt_Suc_shift same hd)
  next
    case False
    then have mz: "m = 0" using m0 by simp
    have step: "AllowVisitor ls ip rpm now = (Inr (False, False), ls)"
      using False by (simp add: AllowVisitor_existing [OF ex v] al)
    have rest: "run_visits ls rpm (replicate k (ip, now)) =
           (map (\<lambda>j. Inr (int j < m, False)) [0..<k],
            ls\<lparr>heap := (heap ls)(p := \<lparr>limit = PerSecond (of_int Second / of_int i), burst = b,
                  tokens = of_int (max 0 (m - int k)), last_t = now\<rparr>)\<rparr>)"
      using Suc.prems by (intro Suc.IH) simp_all
    have upd: "ls\<lparr>heap := (heap ls)(p := \<lparr>limit = PerSecond (of_int Second / of_int i), burst = b,
                  tokens = of_int (max 0 (m - int k)), last_t = now\<rparr>)\<rparr>
        = ls\<lparr>heap := (heap ls)(p := \<lparr>limit = PerSecond (of_int Second / of_int i), burst = b,
                  tokens = of_int (max 0 (m - int (Suc k))), last_t = now\<rparr>)\<rparr>"
      using mz by simp
    have "run_visits ls rpm (replicate (Suc k) (ip, now)) =
            (Inr (False, False) # map (\<lambda>j. Inr (int j < m, False)) [0..<k],
             ls\<lparr>heap := (heap ls)(p := \<lparr>limit = PerSecond (of_int Second / of_int i), burst = b,
                  tokens = of_int (max 0 (m - int (Suc k))), last_t = now\<rparr>)\<rparr>)"
      by (simp only: replicate_Suc run_visits_Cons step fst_conv snd_conv rest upd)
    also have "Inr (False, False) # map (\<lambda>j. Inr (int j < m, False)) [0..<k]
            = map (\<lambda>j. (Inr (int j < m, False) :: panic + bool \<times> bool)) [0..<Suc k]"
      unfolding mz by (simp add: map_replicate_const del: upt_Suc)
    finally show ?thesis .
  qed
qed


lemma interval_bounds:
  assumes "0 < rpm" "rpm \<le> Minute"
  shows "0 < Minute div rpm" "Minute div rpm \<le> Minute"
proof -
  show "0 < Minute div rpm"
    using assms by (simp add: pos_imp_zdiv_pos_iff)
  have "Minute div rpm \<le> Minute div 1"
    using assms by (intro zdiv_mono2) (simp_all add: Minute_def Second_def)
  then show "Minute div rpm \<le> Minute" by simp
qed

lemma fresh_first_call:
  assumes rpm: "0 < rpm" "rpm \<le> Minute"
    and ex: "ip \<notin> noLimitIPs ls" and v: "visitors ls ip = None"
  shows "AllowVisitor ls ip rpm now =
     (Inr (1 \<le> rpm div 10, True),
      ls\<lparr>visitors := (visitors ls)(ip \<mapsto> next_ref ls),
         heap := (heap ls)(next_ref ls :=
            \<lparr>limit = PerSecond (of_int Second / of_int (Minute div rpm)), burst = rpm div 10,
             tokens = of_int (if 1 \<le> rpm div 10 then rpm div 10 - 1 else rpm div 10),
             last_t = (if 1 \<le> rpm div 10 then now else 0)\<rparr>),
         next_ref := Suc (next_ref ls)\<rparr>)"
proof -
  let ?i = "Minute div rpm" and ?b = "rpm div 10"
  let ?l0 = "NewLimiter (PerSecond (of_int Second / of_int ?i)) ?b"
  note i = interval_bounds [OF rpm]
  have q: "quot Minute rpm = ?i" "quot rpm 10 = ?b"
    using rpm by (simp_all add: quot_pos Minute_def Second_def)
  have e: "Every ?i = PerSecond (of_int Second / of_int ?i)"
    using i by (simp add: Every_pos)
  have b0: "0 \<le> ?b" using rpm by simp
  have al: "Allow ?l0 now =
           (if 1 \<le> burst ?l0 \<and> 1 \<le> ?b
            then (True, ?l0\<lparr>tokens := of_int (?b - 1), last_t := now\<rparr>) else (False, ?l0))"
    by (rule Allow_whole_tokens [OF limit_NewLimiter i advance_NewLimiter b0])
  have nz: "rpm \<noteq> 0" using rpm by simp
  show ?thesis
    unfolding AllowVisitor_fresh [OF ex v nz] q e al
    by (simp add: NewLimiter_def)
qed

lemma burst_run_of_fresh_ip:
  assumes rpm: "0 < rpm" "rpm \<le> Minute"
    and ex: "ip \<notin> noLimitIPs ls" and v: "visitors ls ip = None"
  shows "fst (run_visits ls rpm (replicate k (ip, now)))
           = map (\<lambda>j. Inr (int j < rpm div 10, j = 0)) [0..<k]"
proof (cases k)
  case 0
  then show ?thesis by simp
next
  case (Suc k')
  let ?i = "Minute div rpm" and ?b = "rpm div 10" and ?p = "next_ref ls"
  note i = interval_bounds [OF rpm]
  note first = fresh_first_call [OF rpm ex v, of now]
  let ?ls' = "snd (AllowVisitor ls ip rpm now)"
  have ex': "ip \<notin> noLimitIPs ?ls'" and v': "visitors ?ls' ip = Some ?p"
    using ex by (simp_all add: first)
  show ?thesis
  proof (cases "1 \<le> ?b")
    case True
    have hp: "heap ?ls' ?p = \<lparr>limit = PerSecond (of_int Second / of_int ?i), burst = ?b,
                      tokens = of_int (?b - 1), last_t = now\<rparr>"
      using True by (simp add: first)
    have m: "0 \<le> ?b - 1" "?b - 1 \<le> ?b" using True by simp_all
    have rest: "fst (run_visits ?ls' rpm (replicate k' (ip, now)))
           = map (\<lambda>j. Inr (int j < ?b - 1, False)) [0..<k']"
      by (simp only: run_same_instant [OF i ex' v' hp m] fst_conv)
    have same: "(\<lambda>j. Inr (int j < ?b - 1, False))
                  = (\<lambda>j. (Inr (int (Suc j) < ?b, Suc j = 0) :: panic + bool \<times> bool))"
      by (rule ext) auto
    have hd: "fst (AllowVisitor ls ip rpm now) = Inr (int 0 < ?b, (0::nat) = 0)"
      using True by (simp add: first)
    show ?thesis
      by (simp only: Suc replicate_Suc run_visits_Cons fst_conv rest same hd
            map_upt_Suc_shift [of "\<lambda>j. Inr (int j < ?b, j = 0)"])
  next
    case False
    then have bz: "?b = 0" using rpm by simp
    have lim: "limit (heap ?ls' ?p) = PerSecond (of_int Second / of_int ?i)"
      and bu: "burst (heap ?ls' ?p) < 1"
      using False by (simp_all add: first)
    have nz: "of_int Second / (of_int ?i :: rat) \<noteq> 0"
      using i by (simp add: Second_def)
    have "run_visits ?ls' rpm (map (Pair ip) (replicate k' now))
            = (map (\<lambda>_. Inr (False, False)) (replicate k' now), ?ls')"
      by (rule run_no_burst [OF ex' v' lim nz bu])
    then have rest: "fst (run_visits ?ls' rpm (replicate k' (ip, now)))
            = replicate k' (Inr (False, False))"
      by simp
    have hd: "fst (AllowVisitor ls ip rpm now) = Inr (False, True)"
      using False by (simp add: first)
    have "map (\<lambda>j. (Inr (int j < ?b, j = 0) :: panic + bool \<times> bool)) [0..<Suc k']
            = Inr (False, True) # replicate k' (Inr (False, False))"
      unfolding bz map_upt_Suc_shift by (simp add: map_replicate_const)
    then show ?thesis
      by (simp only: Suc replicate_Suc run_visits_Cons fst_conv rest hd)
  qed
qed


section \<open>Exempt IPs\<close>

text \<open>
  Claim C1. For an IP of the exempt set, \<open>AllowVisitor\<close> returns
  \<open>allowed = true\<close> and \<open>added = false\<close> whatever the limit, the clock and the
  registry's contents are, and leaves the registry exactly as it was: no bucket
  is created and no token is consumed.
\<close>

theorem exempt_ip_always_allowed:
  "ip \<in> noLimitIPs ls \<Longrightarrow> AllowVisitor ls ip rpm now = (Inr (True, False), ls)"
  by (simp add: AllowVisitor_def)

theorem exempt_ip_always_allowed_witness:
  "''10.0.0.1'' \<in> noLimitIPs (new_limiters [''10.0.0.1''])
   \<and> AllowVisitor (new_limiters [''10.0.0.1'']) ''10.0.0.1'' 0 5
       = (Inr (True, False), new_limiters [''10.0.0.1''])"
proof -
  have h: "''10.0.0.1'' \<in> noLimitIPs (new_limiters [''10.0.0.1''])"
    by (simp add: new_limiters_def)
  from h exempt_ip_always_allowed [OF h, of 0 5] show ?thesis by simp
qed

section \<open>Non-positive limits\<close>

lemmas limiter_eval_defs =
  AllowVisitor_def getVisitor_def tryAddVisitor_def new_limiters_def Allow_def reserveN_def
  NewLimiter_def Every_def quot_def Minute_def Second_def advance_def tokensFromDuration_def
  durationFromTokens_def Let_def

text \<open>
  As stated, the claim "for every IP and every limit \<open>\<le> 0\<close>, \<open>AllowVisitor\<close>
  returns \<open>allowed = true\<close>" fails twice. With the limit 0 the first call for
  a non-exempt IP panics in \<open>tryAddVisitor\<close>, on
  \<open>time.Minute / time.Duration(requestsPerMinuteLimit)\<close>. And the limit argument
  is read only when a bucket is created: a bucket made under the limit 10 and
  emptied keeps refusing when a later call passes the limit \<open>-1\<close>.
\<close>

theorem nonpositive_limit_counterexample:
  "fst (AllowVisitor (new_limiters []) ''10.0.0.7'' 0 100) = Inl DivideByZero
   \<and> fst (AllowVisitor (snd (AllowVisitor (new_limiters []) ''10.0.0.7'' 10 100))
            ''10.0.0.7'' (- 1) 100) = Inr (False, False)"
  by (simp add: limiter_eval_defs)

text \<open>
  Claim C2, as amended. For every limit below zero, in any sequence of calls
  made under that limit on a registry that starts with no visitor (as
  \<open>NewServer\<close> builds it), whatever the IPs, the exempt set and the arrival
  times, every call returns \<open>allowed = true\<close>: the quotient
  \<open>time.Minute / time.Duration(limit)\<close> is not positive, so \<open>rate.Every\<close> gives
  the infinite rate to every bucket. The limit zero is not covered.
\<close>

theorem negative_limit_never_throttles:
  "rpm < 0 \<Longrightarrow>
   \<forall>r \<in> set (fst (run_visits (new_limiters noLimit) rpm reqs)). \<exists>added. r = Inr (True, added)"
  by (rule run_visits_unlimited) (simp_all add: new_limiters_def)

theorem negative_limit_never_throttles_witness:
  "(- 5 :: int) < 0
   \<and> fst (run_visits (new_limiters [''10.0.0.1'']) (- 5)
            [(''10.0.0.7'', 100), (''10.0.0.7'', 100), (''10.0.0.1'', 100), (''10.0.0.7'', 101)])
       = [Inr (True, True), Inr (True, False), Inr (True, False), Inr (True, False)]"
  using negative_limit_never_throttles [of "- 5" "[''10.0.0.1'']"
      "[(''10.0.0.7'', 100), (''10.0.0.7'', 100), (''10.0.0.1'', 100), (''10.0.0.7'', 101)]"]
  by (simp add: limiter_eval_defs)

section \<open>Burst capacity\<close>





text \<open>
  The burst handed to \<open>rate.NewLimiter\<close> is \<open>N div 10\<close> for every limit
  \<open>N > 0\<close>. From 10 on it is at least 1 and the claim holds as written: up to
  \<open>6\<cdot>10\<^sup>1\<^sup>0\<close>, of the requests a fresh IP makes at one instant exactly the
  first \<open>N div 10\<close> are allowed (above, the rate is infinite and all are).
\<close>

lemma fresh_ip_burst:
  assumes "0 < rpm" "rpm \<le> Minute" "ip \<notin> noLimitIPs ls" "visitors ls ip = None"
  shows "(\<exists>p. visitors (snd (AllowVisitor ls ip rpm now)) ip = Some p
            \<and> burst (heap (snd (AllowVisitor ls ip rpm now)) p) = rpm div 10)
         \<and> fst (run_visits ls rpm (replicate k (ip, now)))
             = map (\<lambda>j. Inr (int j < rpm div 10, j = 0)) [0..<k]"
proof -
  have "visitors (snd (AllowVisitor ls ip rpm now)) ip = Some (next_ref ls)
        \<and> burst (heap (snd (AllowVisitor ls ip rpm now)) (next_ref ls)) = rpm div 10"
    by (simp add: fresh_first_call [OF assms])
  then show ?thesis
    using burst_run_of_fresh_ip [OF assms] by blast
qed

lemma small_limit_blocks_ip:
  assumes "0 < rpm" "rpm < 10" "ip \<notin> noLimitIPs ls" "visitors ls ip = None"
  shows "fst (run_visits ls rpm (map (Pair ip) (t # ts)))
           = Inr (False, True) # map (\<lambda>_. Inr (False, False)) ts"
proof -
  have le: "rpm \<le> Minute" using assms(2) by (simp add: Minute_def Second_def)
  have b: "rpm div 10 = 0" using assms(1,2) by simp
  note i = interval_bounds [OF assms(1) le]
  note first = fresh_first_call [OF assms(1) le assms(3,4), of t]
  let ?ls' = "snd (AllowVisitor ls ip rpm t)"
  have ex': "ip \<notin> noLimitIPs ?ls'" and v': "visitors ?ls' ip = Some (next_ref ls)"
    using assms(3) by (simp_all add: first)
  have lim: "limit (heap ?ls' (next_ref ls)) = PerSecond (of_int Second / of_int (Minute div rpm))"
    and bu: "burst (heap ?ls' (next_ref ls)) < 1"
    by (simp_all add: first b)
  have nz: "of_int Second / (of_int (Minute div rpm) :: rat) \<noteq> 0"
    using i by (simp add: Second_def)
  have rest: "fst (run_visits ?ls' rpm (map (Pair ip) ts)) = map (\<lambda>_. Inr (False, False)) ts"
    by (simp only: run_no_burst [OF ex' v' lim nz bu] fst_conv)
  have hd: "fst (AllowVisitor ls ip rpm t) = Inr (False, True)"
    by (simp add: first b)
  show ?thesis
    by (simp only: list.map run_visits_Cons fst_conv rest hd)
qed

text \<open>
  Claim C3: "the bucket created on first sight has burst capacity N/10 but at
  least 1, so a fresh IP may make up to max(N/10, 1) requests instantly".
  For \<open>0 < N < 10\<close> the code does not do so: \<open>tryAddVisitor\<close> hands
  \<open>requestsPerMinuteLimit/10 = 0\<close> to \<open>rate.NewLimiter\<close>, and a limiter with
  burst 0 and a finite rate refuses every request, whenever it comes. With
  N = 5 the first request of a fresh IP is refused and so is every later one,
  at any times \<open>t\<close> and \<open>ts\<close>; the bucket registered for the IP has burst 0.
\<close>

theorem small_limit_refuses_every_request:
  "fst (run_visits (new_limiters []) 5 (map (Pair ''10.0.0.7'') (t # ts)))
     = Inr (False, True) # map (\<lambda>_. Inr (False, False)) ts
   \<and> visitors (snd (AllowVisitor (new_limiters []) ''10.0.0.7'' 5 t)) ''10.0.0.7'' = Some 0
   \<and> burst (heap (snd (AllowVisitor (new_limiters []) ''10.0.0.7'' 5 t)) 0) = 0"
proof -
  have h: "(0::int) < 5" "(5::int) < 10" "''10.0.0.7'' \<notin> noLimitIPs (new_limiters [])"
    "visitors (new_limiters []) ''10.0.0.7'' = None"
    by (simp_all add: new_limiters_def)
  have le: "(5::int) \<le> Minute" by (simp add: Minute_def Second_def)
  have n: "next_ref (new_limiters []) = 0" by (simp add: new_limiters_def)
  have "visitors (snd (AllowVisitor (new_limiters []) ''10.0.0.7'' 5 t)) ''10.0.0.7'' = Some 0
        \<and> burst (heap (snd (AllowVisitor (new_limiters []) ''10.0.0.7'' 5 t)) 0) = 0"
    using fresh_first_call [OF h(1) le h(3,4), of t] by (simp add: n)
  then show ?thesis
    using small_limit_blocks_ip [OF h, of t ts] by simp
qed

section \<open>One bucket per IP\<close>

text \<open>
  Once an IP has a bucket, no call of \<open>AllowVisitor\<close>, for this IP or any
  other, under any limit, replaces or removes its entry in \<open>visitors\<close>: the
  code has no path that deletes from the map or overwrites an existing key.
  A first call with a non-zero limit registers exactly one new reference, and
  a later call for the IP reports \<open>added = false\<close> and touches only the limiter
  behind that reference.
\<close>

lemma AllowVisitor_keeps_visitor:
  assumes "visitors ls ip = Some p"
  shows "visitors (snd (AllowVisitor ls ip' rpm now)) ip = Some p"
  using assms
  by (cases "visitors ls ip'")
     (auto simp add: AllowVisitor_def getVisitor_def tryAddVisitor_def Let_def split_beta)

lemma run_visits_keeps_visitor:
  "visitors ls ip = Some p \<Longrightarrow> visitors (snd (run_visits ls rpm reqs)) ip = Some p"
proof (induction reqs arbitrary: ls)
  case Nil
  then show ?case by simp
next
  case (Cons rq reqs)
  obtain ip' now where rq: "rq = (ip', now)" by (cases rq)
  have "visitors (snd (AllowVisitor ls ip' rpm now)) ip = Some p"
    using Cons.prems by (rule AllowVisitor_keeps_visitor)
  then have "visitors (snd (run_visits (snd (AllowVisitor ls ip' rpm now)) rpm reqs)) ip = Some p"
    by (rule Cons.IH)
  then show ?case
    by (simp only: rq run_visits_Cons snd_conv)
qed

lemma first_call_registers_one_bucket:
  assumes "ip \<notin> noLimitIPs ls" "visitors ls ip = None" "rpm \<noteq> 0"
  shows "\<exists>allowed. fst (AllowVisitor ls ip rpm now) = Inr (allowed, True)"
    and "visitors (snd (AllowVisitor ls ip rpm now)) = (visitors ls)(ip \<mapsto> next_ref ls)"
    and "next_ref (snd (AllowVisitor ls ip rpm now)) = Suc (next_ref ls)"
  by (simp_all add: AllowVisitor_fresh [OF assms])

lemma AllowVisitor_fresh_zero:
  "ip \<notin> noLimitIPs ls \<Longrightarrow> visitors ls ip = None \<Longrightarrow>
   AllowVisitor ls ip 0 now = (Inl DivideByZero, ls)"
  by (simp add: AllowVisitor_def getVisitor_def tryAddVisitor_def)

lemma later_call_reuses_bucket:
  assumes "ip \<notin> noLimitIPs ls" "visitors ls ip = Some p"
  shows "\<exists>allowed. fst (AllowVisitor ls ip rpm now) = Inr (allowed, False)"
    and "visitors (snd (AllowVisitor ls ip rpm now)) = visitors ls"
    and "next_ref (snd (AllowVisitor ls ip rpm now)) = next_ref ls"
    and "heap (snd (AllowVisitor ls ip rpm now)) = (heap ls)(p := snd (Allow (heap ls p) now))"
  by (simp_all add: AllowVisitor_existing [OF assms])

text \<open>
  Claim C4: "for every non-exempt IP, the first call of \<open>AllowVisitor\<close> for
  that IP creates and registers exactly one bucket (returning \<open>added = true\<close>)".
  When the limit is 0 the first call does not: \<open>tryAddVisitor\<close> divides
  \<open>time.Minute\<close> by \<open>time.Duration(0)\<close> before it builds the limiter, the call
  panics, nothing is returned and no bucket is registered, so the next call
  for the IP meets the same panic.
\<close>

theorem zero_limit_first_call_panics:
  "AllowVisitor (new_limiters []) ''10.0.0.7'' 0 100 = (Inl DivideByZero, new_limiters [])
   \<and> visitors (snd (AllowVisitor (new_limiters []) ''10.0.0.7'' 0 100)) ''10.0.0.7'' = None"
  by (simp add: AllowVisitor_def getVisitor_def tryAddVisitor_def new_limiters_def)

section \<open>Concurrent first requests\<close>

text \<open>
  Run one after the other with nothing in between, a caller's sections are
  \<open>AllowVisitor\<close>: the same result and the same registry.
\<close>

lemma AllowVisitor_in_sections:
  "map result_of (fst (interleave ls ip rpm [Start] [(0, now), (0, now), (0, now)]))
     = [Some (fst (AllowVisitor ls ip rpm now))]
   \<and> snd (interleave ls ip rpm [Start] [(0, now), (0, now), (0, now)])
     = snd (AllowVisitor ls ip rpm now)"
proof (cases "ip \<in> noLimitIPs ls")
  case True
  then show ?thesis by (simp add: AllowVisitor_def)
next
  case ex: False
  show ?thesis
  proof (cases "visitors ls ip")
    case None
    show ?thesis
    proof (cases "rpm = 0")
      case True
      then show ?thesis
        using ex None by (simp add: AllowVisitor_def getVisitor_def tryAddVisitor_def)
    next
      case False
      then show ?thesis
        using ex None
        by (simp add: AllowVisitor_def getVisitor_def tryAddVisitor_def Let_def split_beta)
    qed
  next
    case (Some l)
    then show ?thesis
      using ex by (simp add: AllowVisitor_def getVisitor_def split_beta)
  qed
qed

text \<open>
  Each section keeps the two invariants, and so does every schedule.
\<close>

lemma length_filter_update:
  "i < length xs \<Longrightarrow>
   length (filter P (xs[i := y])) + (if P (xs ! i) then 1 else 0)
     = length (filter P xs) + (if P y then 1 else 0)"
proof (induction xs arbitrary: i)
  case Nil
  then show ?case by simp
next
  case (Cons x xs)
  show ?case
  proof (cases i)
    case 0
    then show ?thesis by simp
  next
    case (Suc j)
    then have "j < length xs" using Cons.prems by simp
    from Cons.IH [OF this] show ?thesis by (simp add: Suc)
  qed
qed

lemma length_filter_update_same:
  "i < length xs \<Longrightarrow> P y = P (xs ! i) \<Longrightarrow>
   length (filter P (xs[i := y])) = length (filter P xs)"
  using length_filter_update [of i xs P y] by simp

lemma list_all_update:
  "list_all P xs \<Longrightarrow> P y \<Longrightarrow> list_all P (xs[i := y])"
  using set_update_subset_insert [of xs i y] by (auto simp add: list_all_iff)

lemma list_all_nth:
  "list_all P xs \<Longrightarrow> i < length xs \<Longrightarrow> P (xs ! i)"
  by (simp add: list_all_length)

lemma idle_facts:
  assumes "idle c"
  shows "\<not> created c" "bucket_of c = None" "\<not> took_token c" "\<not> was_refused c"
  using assms by (cases c; simp)+

lemma all_idle_nobody:
  assumes "list_all idle cs"
  shows "filter created cs = []" "filter took_token cs = []" "filter was_refused cs = []"
  using assms idle_facts by (auto simp add: list_all_iff filter_empty_conv)

lemma visit_step_one_bucket:
  assumes ex: "ip \<notin> noLimitIPs ls0" and inv: "one_bucket ls0 ip cs ls" and i: "i < length cs"
  shows "one_bucket ls0 ip (cs[i := fst (visit_step ls ip rpm now (cs ! i))])
           (snd (visit_step ls ip rpm now (cs ! i)))"
proof -
  let ?l = "next_ref ls0"
  have nl: "noLimitIPs ls = noLimitIPs ls0" using inv by (simp add: one_bucket_def)
  then have ex': "ip \<notin> noLimitIPs ls" using ex by simp
  show ?thesis
  proof (cases "visitors ls ip")
    case None
    then have v0: "visitors ls = visitors ls0" and n0: "next_ref ls = next_ref ls0"
      and nb: "list_all idle cs"
      using inv by (simp_all add: one_bucket_def)
    have ci: "idle (cs ! i)" using nb i by (rule list_all_nth)
    show ?thesis
    proof (cases "cs ! i")
      case Start
      then have st: "visit_step ls ip rpm now (cs ! i) = (Missed, ls)"
        using ex' None by simp
      have "list_all idle (cs[i := Missed])"
        using nb by (rule list_all_update) simp
      then show ?thesis
        using None v0 n0 nl by (simp add: st one_bucket_def)
    next
      case Missed
      show ?thesis
      proof (cases "rpm = 0")
        case True
        then have st: "visit_step ls ip rpm now (cs ! i) = (Panicked DivideByZero, ls)"
          using Missed None by (simp add: tryAddVisitor_def)
        have "list_all idle (cs[i := Panicked DivideByZero])"
          using nb by (rule list_all_update) simp
        then show ?thesis
          using None v0 n0 nl by (simp add: st one_bucket_def)
      next
        case False
        let ?ls' = "ls\<lparr>visitors := (visitors ls)(ip \<mapsto> next_ref ls),
                      heap := (heap ls)(next_ref ls :=
                                NewLimiter (Every (quot Minute rpm)) (quot rpm 10)),
                      next_ref := Suc (next_ref ls)\<rparr>"
        have st: "visit_step ls ip rpm now (cs ! i) = (Holding (next_ref ls) True, ?ls')"
          using Missed None False by (simp add: tryAddVisitor_def Let_def)
        have c0: "filter created cs = []" using nb by (rule all_idle_nobody)
        have "length (filter created (cs[i := Holding ?l True])) + 0 = 0 + 1"
          using length_filter_update [OF i, of created "Holding ?l True"] c0 Missed by simp
        then have c1: "length (filter created (cs[i := Holding ?l True])) = 1" by simp
        have "list_all (\<lambda>c. bucket_of c = None \<or> bucket_of c = Some ?l) cs"
          using nb idle_facts(2) by (auto simp add: list_all_iff)
        then have a1: "list_all (\<lambda>c. bucket_of c = None \<or> bucket_of c = Some ?l)
                         (cs[i := Holding ?l True])"
          by (rule list_all_update) simp
        show ?thesis
          using c1 a1 v0 nl by (simp add: st n0 one_bucket_def)
      qed
    next
      case (Holding l a)
      with ci show ?thesis by simp
    next
      case (Returned l ok a)
      with ci show ?thesis by simp
    next
      case (Panicked p)
      then have st: "visit_step ls ip rpm now (cs ! i) = (cs ! i, ls)" by simp
      show ?thesis using inv by (simp add: st)
    qed
  next
    case (Some l0)
    then have l: "l0 = ?l" using inv by (simp add: one_bucket_def)
    have Some': "visitors ls ip = Some ?l" using Some l by simp
    have v1: "visitors ls = (visitors ls0)(ip \<mapsto> ?l)"
      and n1: "next_ref ls = Suc (next_ref ls0)"
      and c1: "length (filter created cs) = 1"
      and a1: "list_all (\<lambda>c. bucket_of c = None \<or> bucket_of c = Some ?l) cs"
      using inv Some' by (simp_all add: one_bucket_def)
    have ci: "bucket_of (cs ! i) = None \<or> bucket_of (cs ! i) = Some ?l"
      using a1 i by (rule list_all_nth)
    have keep: "one_bucket ls0 ip (cs[i := c']) ls'"
      if "created c' = created (cs ! i)" "bucket_of c' = None \<or> bucket_of c' = Some ?l"
        "visitors ls' = visitors ls" "next_ref ls' = next_ref ls" "noLimitIPs ls' = noLimitIPs ls"
      for c' ls'
    proof -
      have "length (filter created (cs[i := c'])) = 1"
        using length_filter_update_same [OF i, of created c'] that(1) c1 by simp
      moreover have "list_all (\<lambda>c. bucket_of c = None \<or> bucket_of c = Some ?l) (cs[i := c'])"
        using a1 that(2) by (rule list_all_update)
      ultimately show ?thesis
        using that(3-5) v1 n1 nl by (simp add: one_bucket_def)
    qed
    show ?thesis
    proof (cases "cs ! i")
      case Start
      then have st: "visit_step ls ip rpm now (cs ! i) = (Holding ?l False, ls)"
        using ex' Some' by simp
      show ?thesis unfolding st fst_conv snd_conv
        by (rule keep) (simp_all add: Start)
    next
      case Missed
      then have st: "visit_step ls ip rpm now (cs ! i) = (Holding ?l False, ls)"
        using Some' by (simp add: tryAddVisitor_def)
      show ?thesis unfolding st fst_conv snd_conv
        by (rule keep) (simp_all add: Missed)
    next
      case (Holding l' a)
      have st: "visit_step ls ip rpm now (cs ! i)
                  = (Returned (Some l') (fst (Allow (heap ls l') now)) a,
                     ls\<lparr>heap := (heap ls)(l' := snd (Allow (heap ls l') now))\<rparr>)"
        by (simp add: Holding split_beta)
      show ?thesis unfolding st fst_conv snd_conv
        using ci by (intro keep) (simp_all add: Holding)
    next
      case (Returned l' ok a)
      then have st: "visit_step ls ip rpm now (cs ! i) = (cs ! i, ls)" by simp
      show ?thesis using inv by (simp add: st)
    next
      case (Panicked p)
      then have st: "visit_step ls ip rpm now (cs ! i) = (cs ! i, ls)" by simp
      show ?thesis using inv by (simp add: st)
    qed
  qed
qed

lemma interleave_one_bucket:
  assumes "ip \<notin> noLimitIPs ls0"
  shows "one_bucket ls0 ip cs ls \<Longrightarrow>
         one_bucket ls0 ip (fst (interleave ls ip rpm cs sched)) (snd (interleave ls ip rpm cs sched))"
proof (induction sched arbitrary: cs ls)
  case Nil
  then show ?case by simp
next
  case (Cons e sched)
  obtain i now where e: "e = (i, now)" by (cases e)
  show ?case
  proof (cases "i < length cs")
    case True
    have "one_bucket ls0 ip (cs[i := fst (visit_step ls ip rpm now (cs ! i))])
           (snd (visit_step ls ip rpm now (cs ! i)))"
      by (rule visit_step_one_bucket [OF assms Cons.prems True])
    from Cons.IH [OF this] show ?thesis using True by (simp add: e)
  next
    case False
    from Cons.IH [OF Cons.prems] show ?thesis using False by (simp add: e)
  qed
qed

lemma advance_full:
  assumes "tokens lm = of_int (burst lm)"
  shows "advance lm r now = of_int (burst lm)"
proof -
  have "0 \<le> tokensFromDuration r (now - (if now < last_t lm then now else last_t lm))"
    by (simp add: tokensFromDuration_def Second_def)
  then show ?thesis
    using assms by (auto simp add: advance_def Let_def)
qed

lemma visit_step_exact_tokens:
  assumes rpm: "0 < rpm" "rpm \<le> Minute"
    and ex: "ip \<notin> noLimitIPs ls0"
    and inv: "one_bucket ls0 ip cs ls"
    and tok: "exact_tokens rpm now ip cs ls"
    and i: "i < length cs"
  shows "exact_tokens rpm now ip (cs[i := fst (visit_step ls ip rpm now (cs ! i))])
           (snd (visit_step ls ip rpm now (cs ! i)))"
proof -
  let ?l = "next_ref ls0" and ?b = "rpm div 10" and ?i = "Minute div rpm"
  let ?A = "\<lambda>cs. int (length (filter took_token cs))"
  note iv = interval_bounds [OF rpm]
  have b0: "0 \<le> ?b" using rpm(1) by simp
  have nl: "noLimitIPs ls = noLimitIPs ls0" using inv by (simp add: one_bucket_def)
  then have ex': "ip \<notin> noLimitIPs ls" using ex by simp
  show ?thesis
  proof (cases "visitors ls ip")
    case None
    then have n0: "next_ref ls = next_ref ls0" and nb: "list_all idle cs"
      using inv by (simp_all add: one_bucket_def)
    have ci: "idle (cs ! i)" using nb i by (rule list_all_nth)
    show ?thesis
    proof (cases "cs ! i")
      case Start
      then have st: "visit_step ls ip rpm now (cs ! i) = (Missed, ls)"
        using ex' None by simp
      show ?thesis using None by (simp add: st exact_tokens_def)
    next
      case Missed
      have nz: "rpm \<noteq> 0" using rpm(1) by simp
      let ?ls' = "ls\<lparr>visitors := (visitors ls)(ip \<mapsto> next_ref ls),
                    heap := (heap ls)(next_ref ls :=
                              NewLimiter (Every (quot Minute rpm)) (quot rpm 10)),
                    next_ref := Suc (next_ref ls)\<rparr>"
      have st: "visit_step ls ip rpm now (cs ! i) = (Holding (next_ref ls) True, ?ls')"
        using Missed None nz by (simp add: tryAddVisitor_def Let_def)
      have q: "quot Minute rpm = ?i" "quot rpm 10 = ?b"
        using rpm by (simp_all add: quot_pos Minute_def Second_def)
      have e: "Every ?i = PerSecond (of_int Second / of_int ?i)"
        using iv by (simp add: Every_pos)
      have t0: "filter took_token cs = []" and r0: "filter was_refused cs = []"
        using nb by (rule all_idle_nobody)+
      have t1: "length (filter took_token (cs[i := Holding (next_ref ls) True])) = 0"
        using length_filter_update_same [OF i, of took_token "Holding (next_ref ls) True"]
          t0 Missed by simp
      have r1: "length (filter was_refused (cs[i := Holding (next_ref ls) True])) = 0"
        using length_filter_update_same [OF i, of was_refused "Holding (next_ref ls) True"]
          r0 Missed by simp
      show ?thesis
        unfolding st fst_conv snd_conv
        using t1 r1 b0 by (simp add: exact_tokens_def q e NewLimiter_def)
    next
      case (Holding l a)
      with ci show ?thesis by simp
    next
      case (Returned l ok a)
      with ci show ?thesis by simp
    next
      case (Panicked p)
      then have st: "visit_step ls ip rpm now (cs ! i) = (cs ! i, ls)" by simp
      show ?thesis using tok by (simp add: st)
    qed
  next
    case (Some l0)
    then have l: "l0 = ?l" using inv by (simp add: one_bucket_def)
    have Some': "visitors ls ip = Some ?l" using Some l by simp
    have a1: "list_all (\<lambda>c. bucket_of c = None \<or> bucket_of c = Some ?l) cs"
      using inv Some' by (simp add: one_bucket_def)
    have ci: "bucket_of (cs ! i) = None \<or> bucket_of (cs ! i) = Some ?l"
      using a1 i by (rule list_all_nth)
    let ?lm = "heap ls ?l"
    have lim: "limit ?lm = PerSecond (of_int Second / of_int ?i)"
      and bu: "burst ?lm = ?b"
      and tk: "tokens ?lm = of_int (?b - ?A cs)"
      and ab: "?A cs \<le> ?b"
      and lt: "length (filter took_token cs) = 0 \<or> last_t ?lm = now"
      and rf: "length (filter was_refused cs) = 0 \<or> ?A cs = ?b"
      using tok Some' by (simp_all add: exact_tokens_def)
    have same: "exact_tokens rpm now ip (cs[i := c']) ls"
      if "took_token c' = took_token (cs ! i)" "was_refused c' = was_refused (cs ! i)" for c'
    proof -
      have "length (filter took_token (cs[i := c'])) = length (filter took_token cs)"
        using length_filter_update_same [OF i, of took_token c'] that(1) by simp
      moreover have "length (filter was_refused (cs[i := c'])) = length (filter was_refused cs)"
        using length_filter_update_same [OF i, of was_refused c'] that(2) by simp
      ultimately show ?thesis
        using tok Some' by (simp add: exact_tokens_def)
    qed
    show ?thesis
    proof (cases "cs ! i")
      case Start
      then have st: "visit_step ls ip rpm now (cs ! i) = (Holding ?l False, ls)"
        using ex' Some' by simp
      show ?thesis unfolding st fst_conv snd_conv
        by (rule same) (simp_all add: Start)
    next
      case Missed
      then have st: "visit_step ls ip rpm now (cs ! i) = (Holding ?l False, ls)"
        using Some' by (simp add: tryAddVisitor_def)
      show ?thesis unfolding st fst_conv snd_conv
        by (rule same) (simp_all add: Missed)
    next
      case (Holding l' a)
      then have l': "l' = ?l" using ci by simp
      have m0: "0 \<le> ?b - ?A cs" using ab by simp
      have adv: "advance ?lm (of_int Second / of_int ?i) now = of_int (?b - ?A cs)"
      proof (cases "length (filter took_token cs) = 0")
        case True
        then have "tokens ?lm = of_int (burst ?lm)" using tk bu by simp
        then have "advance ?lm (of_int Second / of_int ?i) now = of_int (burst ?lm)"
          by (rule advance_full)
        then show ?thesis using True bu by simp
      next
        case False
        then have "last_t ?lm = now" using lt by simp
        moreover have "tokens ?lm \<le> of_int (burst ?lm)"
          unfolding tk bu by simp
        ultimately have "advance ?lm (of_int Second / of_int ?i) now = tokens ?lm"
          by (rule advance_same_instant)
        then show ?thesis using tk by simp
      qed
      have al: "Allow ?lm now =
           (if 1 \<le> burst ?lm \<and> 1 \<le> ?b - ?A cs
            then (True, ?lm\<lparr>tokens := of_int (?b - ?A cs - 1), last_t := now\<rparr>)
            else (False, ?lm))"
        by (rule Allow_whole_tokens [OF lim iv adv m0])
      show ?thesis
      proof (cases "1 \<le> ?b - ?A cs")
        case True
        then have b1: "1 \<le> burst ?lm" using bu ab m0 by linarith
        let ?lm' = "?lm\<lparr>tokens := of_int (?b - ?A cs - 1), last_t := now\<rparr>"
        have st: "visit_step ls ip rpm now (cs ! i)
                    = (Returned (Some ?l) True a, ls\<lparr>heap := (heap ls)(?l := ?lm')\<rparr>)"
          using True b1 by (simp add: Holding l' al)
        have "length (filter took_token (cs[i := Returned (Some ?l) True a])) + 0
                = length (filter took_token cs) + 1"
          using length_filter_update [OF i, of took_token "Returned (Some ?l) True a"] Holding
          by simp
        then have A': "?A (cs[i := Returned (Some ?l) True a]) = ?A cs + 1" by simp
        have r0: "length (filter was_refused cs) = 0" using rf True by linarith
        have R': "length (filter was_refused (cs[i := Returned (Some ?l) True a])) = 0"
          using length_filter_update_same [OF i, of was_refused "Returned (Some ?l) True a"]
            r0 Holding by simp
        have tk': "of_int (?b - ?A cs - 1) = (of_int (?b - (?A cs + 1)) :: rat)" by simp
        show ?thesis
          unfolding st fst_conv snd_conv
          using Some' lim bu True R'
          by (simp add: exact_tokens_def A' tk' del: of_int_diff of_int_add)
      next
        case False
        then have eq: "?A cs = ?b" using ab by simp
        have st: "visit_step ls ip rpm now (cs ! i) = (Returned (Some ?l) False a, ls)"
          using False by (simp add: Holding l' al)
        have A': "length (filter took_token (cs[i := Returned (Some ?l) False a]))
                    = length (filter took_token cs)"
          using length_filter_update_same [OF i, of took_token "Returned (Some ?l) False a"]
            Holding by simp
        show ?thesis
          unfolding st fst_conv snd_conv
          using tok Some' eq by (simp add: exact_tokens_def A')
      qed
    next
      case (Returned l' ok a)
      then have st: "visit_step ls ip rpm now (cs ! i) = (cs ! i, ls)" by simp
      show ?thesis using tok by (simp add: st)
    next
      case (Panicked p)
      then have st: "visit_step ls ip rpm now (cs ! i) = (cs ! i, ls)" by simp
      show ?thesis using tok by (simp add: st)
    qed
  qed
qed

lemma interleave_exact_tokens:
  assumes rpm: "0 < rpm" "rpm \<le> Minute" and ex: "ip \<notin> noLimitIPs ls0"
  shows "one_bucket ls0 ip cs ls \<Longrightarrow> exact_tokens rpm now ip cs ls \<Longrightarrow>
         list_all (\<lambda>e. snd e = now) sched \<Longrightarrow>
         exact_tokens rpm now ip (fst (interleave ls ip rpm cs sched))
           (snd (interleave ls ip rpm cs sched))"
proof (induction sched arbitrary: cs ls)
  case Nil
  then show ?case by simp
next
  case (Cons e sched)
  obtain i t where e: "e = (i, t)" by (cases e)
  have t: "t = now" and rest: "list_all (\<lambda>e. snd e = now) sched"
    using Cons.prems(3) by (simp_all add: e)
  show ?case
  proof (cases "i < length cs")
    case True
    have 1: "one_bucket ls0 ip (cs[i := fst (visit_step ls ip rpm now (cs ! i))])
           (snd (visit_step ls ip rpm now (cs ! i)))"
      by (rule visit_step_one_bucket [OF ex Cons.prems(1) True])
    have 2: "exact_tokens rpm now ip (cs[i := fst (visit_step ls ip rpm now (cs ! i))])
           (snd (visit_step ls ip rpm now (cs ! i)))"
      by (rule visit_step_exact_tokens [OF rpm ex Cons.prems(1,2) True])
    from Cons.IH [OF 1 2 rest] show ?thesis using True by (simp add: e t)
  next
    case False
    from Cons.IH [OF Cons.prems(1,2) rest] show ?thesis using False by (simp add: e)
  qed
qed

text \<open>
  Claim C5. Any number of callers make first requests for one non-exempt IP
  that has no bucket, and the scheduler runs their sections in any order, with
  any clocks. Then at most one caller creates a bucket (gets \<open>added = true\<close>);
  every caller that gets a bucket gets the one bucket registered for the IP,
  the creator's: a caller that missed in \<open>getVisitor\<close> finds it when
  \<open>tryAddVisitor\<close> looks again under the write lock; the registry gains at
  most that one entry and that one reference. Consumption from the shared
  bucket is exact: when the callers read one instant and the rate is finite
  (\<open>0 < limit \<le> 6\<cdot>10\<^sup>1\<^sup>0\<close>), the number of callers allowed is the smaller of
  the burst and the number of callers that asked, and the tokens left are the
  burst less the tokens granted.
\<close>

theorem concurrent_first_requests_share_one_bucket:
  fixes ls :: limiters and ip :: string and rpm :: int and n :: nat
    and sched :: "(nat \<times> Time) list" and now :: Time
  defines "cs' \<equiv> fst (interleave ls ip rpm (replicate n Start) sched)"
    and "ls' \<equiv> snd (interleave ls ip rpm (replicate n Start) sched)"
  assumes ex: "ip \<notin> noLimitIPs ls" and fresh: "visitors ls ip = None"
  shows "length (filter created cs') \<le> 1
         \<and> (\<forall>c \<in> set cs'. \<forall>l. bucket_of c = Some l
               \<longrightarrow> l = next_ref ls \<and> visitors ls' ip = Some l)
         \<and> (visitors ls' = visitors ls \<or> visitors ls' = (visitors ls)(ip \<mapsto> next_ref ls))
         \<and> next_ref ls' \<le> Suc (next_ref ls)
         \<and> (0 < rpm \<and> rpm \<le> Minute \<and> list_all (\<lambda>e. snd e = now) sched \<longrightarrow>
              int (length (filter took_token cs'))
                = min (int (length (filter took_token cs')) + int (length (filter was_refused cs')))
                      (rpm div 10)
              \<and> (\<forall>l. visitors ls' ip = Some l \<longrightarrow>
                    tokens (heap ls' l)
                      = of_int (rpm div 10 - int (length (filter took_token cs')))))"
proof -
  have init: "one_bucket ls ip (replicate n Start) ls"
    using fresh by (simp add: one_bucket_def list_all_iff)
  have inv: "one_bucket ls ip cs' ls'"
    unfolding cs'_def ls'_def by (rule interleave_one_bucket [OF ex init])
  have shape: "length (filter created cs') \<le> 1
         \<and> (\<forall>c \<in> set cs'. \<forall>l. bucket_of c = Some l
               \<longrightarrow> l = next_ref ls \<and> visitors ls' ip = Some l)
         \<and> (visitors ls' = visitors ls \<or> visitors ls' = (visitors ls)(ip \<mapsto> next_ref ls))
         \<and> next_ref ls' \<le> Suc (next_ref ls)"
  proof (cases "visitors ls' ip")
    case None
    then have v: "visitors ls' = visitors ls" and nx: "next_ref ls' = next_ref ls"
      and idle: "list_all idle cs'"
      using inv by (simp_all add: one_bucket_def)
    have "filter created cs' = []" using idle by (rule all_idle_nobody)
    moreover have "\<forall>c \<in> set cs'. bucket_of c = None"
      using idle idle_facts(2) by (auto simp add: list_all_iff)
    ultimately show ?thesis using v nx by simp
  next
    case (Some l)
    then have "l = next_ref ls" using inv by (simp add: one_bucket_def)
    with Some have S: "visitors ls' ip = Some (next_ref ls)" by simp
    have "visitors ls' = (visitors ls)(ip \<mapsto> next_ref ls)"
      "next_ref ls' = Suc (next_ref ls)" "length (filter created cs') = 1"
      "list_all (\<lambda>c. bucket_of c = None \<or> bucket_of c = Some (next_ref ls)) cs'"
      using inv S by (simp_all add: one_bucket_def)
    then show ?thesis using S by (auto simp add: list_all_iff)
  qed
  have accounting: "int (length (filter took_token cs'))
                = min (int (length (filter took_token cs')) + int (length (filter was_refused cs')))
                      (rpm div 10)
              \<and> (\<forall>l. visitors ls' ip = Some l \<longrightarrow>
                    tokens (heap ls' l)
                      = of_int (rpm div 10 - int (length (filter took_token cs'))))"
    if rpm: "0 < rpm" "rpm \<le> Minute" and same: "list_all (\<lambda>e. snd e = now) sched"
  proof -
    have tok0: "exact_tokens rpm now ip (replicate n Start) ls"
      using fresh by (simp add: exact_tokens_def)
    have tok: "exact_tokens rpm now ip cs' ls'"
      unfolding cs'_def ls'_def
      by (rule interleave_exact_tokens [OF rpm ex init tok0 same])
    show ?thesis
    proof (cases "visitors ls' ip")
      case None
      then have "list_all idle cs'" using inv by (simp add: one_bucket_def)
      then have "filter took_token cs' = []" "filter was_refused cs' = []"
        by (rule all_idle_nobody)+
      then show ?thesis using None rpm(1) by simp
    next
      case (Some l)
      then show ?thesis using tok by (auto simp add: exact_tokens_def)
    qed
  qed
  from shape accounting show ?thesis by blast
qed

theorem concurrent_first_requests_share_one_bucket_witness:
  "''10.0.0.7'' \<notin> noLimitIPs (new_limiters [])
   \<and> visitors (new_limiters []) ''10.0.0.7'' = None
   \<and> fst (interleave (new_limiters []) ''10.0.0.7'' 10 (replicate 2 Start)
            [(0, 100), (1, 100), (0, 100), (1, 100), (0, 100), (1, 100)])
       = [Returned (Some 0) True True, Returned (Some 0) False False]
   \<and> visitors (snd (interleave (new_limiters []) ''10.0.0.7'' 10 (replicate 2 Start)
            [(0, 100), (1, 100), (0, 100), (1, 100), (0, 100), (1, 100)])) ''10.0.0.7''
       = Some 0
   \<and> next_ref (snd (interleave (new_limiters []) ''10.0.0.7'' 10 (replicate 2 Start)
            [(0, 100), (1, 100), (0, 100), (1, 100), (0, 100), (1, 100)])) = 1
   \<and> tokens (heap (snd (interleave (new_limiters []) ''10.0.0.7'' 10 (replicate 2 Start)
            [(0, 100), (1, 100), (0, 100), (1, 100), (0, 100), (1, 100)])) 0) = 0"
proof -
  have h: "''10.0.0.7'' \<notin> noLimitIPs (new_limiters [])"
    "visitors (new_limiters []) ''10.0.0.7'' = None"
    by (simp_all add: new_limiters_def)
  have r: "replicate 2 Start = [Start, Start]" by (simp add: numeral_2_eq_2)
  from concurrent_first_requests_share_one_bucket [OF h, of 2 10
         "[(0, 100), (1, 100), (0, 100), (1, 100), (0, 100), (1, 100)]" 100]
  show ?thesis
    using h by (simp add: r limiter_eval_defs)
qed

section \<open>Refill rate\<close>




section \<open>The identifying response header\<close>










section \<open>The root route\<close>

text \<open>
  Claim C8. GET / is answered with status 200 and an empty body, HEAD / with
  status 200 and no body, whatever the upstream, the WebSocket proxy and the
  server are, and the request is handed to no upstream.
\<close>

theorem root_get_and_head:
  "serve roundtrip wsServeHTTP p \<lparr>req_method = ''GET'', req_path = ''/''\<rparr>
     = (\<lparr>header = Map.empty, wrote = Some (200, Map.empty), body = [], hijacked = False\<rparr>, [])
   \<and> serve roundtrip wsServeHTTP p \<lparr>req_method = ''HEAD'', req_path = ''/''\<rparr>
     = (\<lparr>header = Map.empty, wrote = Some (200, Map.empty), body = [], hijacked = False\<rparr>, [])
   \<and> status \<lparr>header = Map.empty, wrote = Some (200, Map.empty), body = [], hijacked = False\<rparr>
       = Some 200"
  by (simp add: serve_def route_of_def chi_methods_def HomePage_def io_Copy_def finish_def
        WriteHeader_def new_writer_def status_def)

section \<open>Startup errors\<close>

lemma NewServer_error:
  assumes "(\<exists>err. parse (cfg_URL c) = Inl err) \<or> (\<exists>err. newMatcher (cfg_Allow c) = Inl err)"
  shows "\<exists>err. NewServer parse resolve newMatcher c = Inl err"
  using assms
  by (auto simp add: NewServer_def URL_Parse_def split: sum.splits)

lemma newMatcher_spec_rejects:
  "\<exists>p \<in> set ps. \<not> valid_pattern p \<Longrightarrow> \<exists>err. newMatcher_spec ps = Inl err"
  by (auto simp add: newMatcher_spec_def list_all_iff)

lemma Parse_rejects_control_character:
  "stringContainsCTLByte (takeWhile (\<lambda>c. c \<noteq> CHR ''#'') rawURL)
     \<Longrightarrow> \<exists>err. Parse parseAuthority rawURL = Inl err"
  by (simp add: Parse_def parse_error_of_def Let_def)

lemma Parse_rejects_leading_colon:
  "\<not> stringContainsCTLByte (CHR '':'' # s) \<Longrightarrow> \<exists>err. Parse parseAuthority (CHR '':'' # s) = Inl err"
  by (simp add: Parse_def parse_error_of_def getScheme_def isLetter_def isDigit_def Let_def)

lemmas url_eval_defs =
  Parse_def parse_error_of_def getScheme_def stringContainsCTLByte_def isLetter_def
  isDigit_def ishex_def url_Error_def error_text_def newMatcher_spec_def valid_pattern_def
  run_def NewServer_def URL_Parse_def Let_def

text \<open>
  As stated, the claim "if the configured upstream origin URL is invalid,
  \<open>NewServer\<close> returns an error and the process does not begin serving" fails:
  \<open>NewServer\<close> rejects only what \<open>url.Parse\<close> rejects, and \<open>url.Parse\<close> accepts
  strings that are no origin. Given \<open>localhost:8040\<close> (a host and a port with
  no scheme) it returns a URL with the scheme \<open>localhost\<close> and no host, and
  given the empty string it returns the empty URL. In both cases \<open>NewServer\<close>
  returns a server and \<open>run\<close> goes on to listen. (No authority is parsed for
  these strings: the results stand even with a \<open>parseAuthority\<close> that rejects
  everything.)
\<close>

theorem invalid_origin_accepted_counterexample:
  "run (Parse (\<lambda>a. Some ''rejected'')) Resolved newMatcher_spec
     \<lparr>cfg_Port = ''8545'', cfg_URL = ''localhost:8040'', cfg_WSURL = ''localhost:8041'',
      cfg_Allow = [], cfg_RPM = 1000, cfg_NoLimit = [],
      cfg_BlockRangeLimit = 0, cfg_MinGasPrice = 60000000000\<rparr>
     = Serving '':8545''
         \<lparr>target = Parsed ''localhost:8040'', proxy = Parsed ''localhost:8040'',
          wsProxy = Resolved (Parsed ''localhost:8040'') (Parsed ''localhost:8041''),
          requestsPerMinuteLimit = 1000, minGasPrice = 60000000000, blockRangeLimit = 0,
          url = ''localhost:8040'', matcher = [], registry = new_limiters []\<rparr>
   \<and> run (Parse (\<lambda>a. Some ''rejected'')) Resolved newMatcher_spec
     \<lparr>cfg_Port = ''8545'', cfg_URL = [], cfg_WSURL = ''localhost:8041'',
      cfg_Allow = [], cfg_RPM = 1000, cfg_NoLimit = [],
      cfg_BlockRangeLimit = 0, cfg_MinGasPrice = 60000000000\<rparr>
     = Serving '':8545''
         \<lparr>target = Parsed [], proxy = Parsed [],
          wsProxy = Resolved (Parsed []) (Parsed ''localhost:8041''),
          requestsPerMinuteLimit = 1000, minGasPrice = 60000000000, blockRangeLimit = 0,
          url = [], matcher = [], registry = new_limiters []\<rparr>"
  by (simp add: url_eval_defs)

text \<open>
  Claim C9, as amended. If \<open>url.Parse\<close> rejects the configured upstream URL, or
  any allowed-method pattern is invalid (empty, or with a \<open>*\<close> elsewhere than
  at its end), then \<open>NewServer\<close> returns an error, and \<open>run\<close> returns it before
  it reaches \<open>http.ListenAndServe\<close>: the process does not begin serving. A URL
  that \<open>url.Parse\<close> accepts is not checked any further.
\<close>

theorem invalid_configuration_stops_startup:
  assumes "(\<exists>err. parse (cfg_URL cfg) = Inl err) \<or> (\<exists>p \<in> set (cfg_Allow cfg). \<not> valid_pattern p)"
  shows "(\<exists>err. NewServer parse resolve newMatcher_spec cfg = Inl err)
         \<and> (\<exists>msg. run parse resolve newMatcher_spec cfg = StartupError msg)"
proof -
  let ?cfg' = "cfg\<lparr>cfg_Allow := sort (cfg_Allow cfg), cfg_NoLimit := sort (cfg_NoLimit cfg)\<rparr>"
  have 1: "\<exists>err. NewServer parse resolve newMatcher_spec cfg = Inl err"
    using assms newMatcher_spec_rejects [of "cfg_Allow cfg"] by (intro NewServer_error) blast
  have "(\<exists>err. parse (cfg_URL ?cfg') = Inl err)
        \<or> (\<exists>err. newMatcher_spec (cfg_Allow ?cfg') = Inl err)"
    using assms newMatcher_spec_rejects [of "sort (cfg_Allow cfg)"] by auto
  then obtain err where "NewServer parse resolve newMatcher_spec ?cfg' = Inl err"
    using NewServer_error [of parse ?cfg' newMatcher_spec resolve] by blast
  then have 2: "\<exists>msg. run parse resolve newMatcher_spec cfg = StartupError msg"
    by (simp add: run_def Let_def)
  from 1 2 show ?thesis by simp
qed

theorem invalid_configuration_stops_startup_witness:
  "Parse (\<lambda>a. None) ''127.0.0.1:8040''
     = Inl (''parse '' @ [CHR 0x22] @ ''127.0.0.1:8040'' @ [CHR 0x22]
            @ '': first path segment in URL cannot contain colon'')
   \<and> run (Parse (\<lambda>a. None)) Resolved newMatcher_spec
       \<lparr>cfg_Port = ''8545'', cfg_URL = ''127.0.0.1:8040'', cfg_WSURL = ''localhost:8041'',
        cfg_Allow = [''eth_blockNumber''], cfg_RPM = 1000, cfg_NoLimit = [],
        cfg_BlockRangeLimit = 0, cfg_MinGasPrice = 60000000000\<rparr>
     = StartupError (''failed to start server: parse '' @ [CHR 0x22] @ ''127.0.0.1:8040''
                     @ [CHR 0x22] @ '': first path segment in URL cannot contain colon'')
   \<and> \<not> valid_pattern ''eth_*Block''
   \<and> run (Parse (\<lambda>a. None)) Resolved newMatcher_spec
       \<lparr>cfg_Port = ''8545'', cfg_URL = ''localhost:8040'', cfg_WSURL = ''localhost:8041'',
        cfg_Allow = [''eth_blockNumber'', ''eth_*Block''], cfg_RPM = 1000, cfg_NoLimit = [],
        cfg_BlockRangeLimit = 0, cfg_MinGasPrice = 60000000000\<rparr>
     = StartupError ''failed to start server: InvalidPattern''"
proof -
  let ?c1 = "\<lparr>cfg_Port = ''8545'', cfg_URL = ''127.0.0.1:8040'', cfg_WSURL = ''localhost:8041'',
        cfg_Allow = [''eth_blockNumber''], cfg_RPM = 1000, cfg_NoLimit = [],
        cfg_BlockRangeLimit = 0, cfg_MinGasPrice = 60000000000\<rparr>"
  let ?c2 = "\<lparr>cfg_Port = ''8545'', cfg_URL = ''localhost:8040'', cfg_WSURL = ''localhost:8041'',
        cfg_Allow = [''eth_blockNumber'', ''eth_*Block''], cfg_RPM = 1000, cfg_NoLimit = [],
        cfg_BlockRangeLimit = 0, cfg_MinGasPrice = 60000000000\<rparr>"
  have p: "Parse (\<lambda>a. None) ''127.0.0.1:8040''
     = Inl (''parse '' @ [CHR 0x22] @ ''127.0.0.1:8040'' @ [CHR 0x22]
            @ '': first path segment in URL cannot contain colon'')"
    by (simp add: url_eval_defs)
  have v: "\<not> valid_pattern ''eth_*Block''" by (simp add: valid_pattern_def)
  have r1: "(\<exists>err. NewServer (Parse (\<lambda>a. None)) Resolved newMatcher_spec ?c1 = Inl err)
         \<and> (\<exists>msg. run (Parse (\<lambda>a. None)) Resolved newMatcher_spec ?c1 = StartupError msg)"
    by (rule invalid_configuration_stops_startup) (simp add: p)
  have r2: "(\<exists>err. NewServer (Parse (\<lambda>a. None)) Resolved newMatcher_spec ?c2 = Inl err)
         \<and> (\<exists>msg. run (Parse (\<lambda>a. None)) Resolved newMatcher_spec ?c2 = StartupError msg)"
    by (rule invalid_configuration_stops_startup) (simp add: v)
  from r1 r2 p v show ?thesis
    by (simp add: url_eval_defs)
qed

section \<open>The WebSocket origin\<close>

text \<open>
  Claim C10. In \<open>NewServer\<close> the WebSocket origin is not the result of the
  package function \<open>url.Parse\<close> on \<open>cfg.WSURL\<close>: it is the result of the method
  \<open>(*url.URL).Parse\<close> on the HTTP origin, that is the parsed \<open>cfg.WSURL\<close>
  resolved as a reference against the HTTP origin. Whenever \<open>cfg.WSURL\<close>
  parses, absolute or relative, construction goes on with the resolved URL
  and does not reject it.
\<close>

theorem wsurl_resolved_against_http_origin:
  assumes "parse (cfg_URL cfg) = Inr u" "parse (cfg_WSURL cfg) = Inr ref"
    and "newMatcher (cfg_Allow cfg) = Inr mt"
  shows "\<exists>s. NewServer parse resolve newMatcher cfg = Inr s
           \<and> target s = u \<and> wsProxy s = resolve u ref
           \<and> URL_Parse parse resolve u (cfg_WSURL cfg) = Inr (wsProxy s)"
  using assms by (simp add: NewServer_def URL_Parse_def)

theorem wsurl_resolved_against_http_origin_witness:
  "NewServer
     (\<lambda>s. if s = ''http://127.0.0.1:8040'' then Inr (''http'', ''127.0.0.1:8040'', [])
          else if s = ''/ws'' then Inr ([], [], ''/ws'')
          else Inl ''parse error'')
     (\<lambda>u ref. if fst ref = [] \<and> fst (snd ref) = [] then (fst u, fst (snd u), snd (snd ref)) else ref)
     (\<lambda>ps. Inr ps :: string + string list)
     \<lparr>cfg_Port = ''8545'', cfg_URL = ''http://127.0.0.1:8040'', cfg_WSURL = ''/ws'',
      cfg_Allow = [], cfg_RPM = 1000, cfg_NoLimit = [],
      cfg_BlockRangeLimit = 0, cfg_MinGasPrice = 60000000000\<rparr>
   = Inr \<lparr>target = (''http'', ''127.0.0.1:8040'', []),
          proxy = (''http'', ''127.0.0.1:8040'', []),
          wsProxy = (''http'', ''127.0.0.1:8040'', ''/ws''),
          requestsPerMinuteLimit = 1000, minGasPrice = 60000000000, blockRangeLimit = 0,
          url = ''http://127.0.0.1:8040'', matcher = [], registry = new_limiters []\<rparr>"
proof -
  let ?parse = "\<lambda>s. if s = ''http://127.0.0.1:8040'' then Inr (''http'', ''127.0.0.1:8040'', [])
          else if s = ''/ws'' then Inr ([], [], ''/ws'')
          else (Inl ''parse error'' :: string + string \<times> string \<times> string)"
  let ?resolve = "\<lambda>(u :: string \<times> string \<times> string) (ref :: string \<times> string \<times> string).
          if fst ref = [] \<and> fst (snd ref) = [] then (fst u, fst (snd u), snd (snd ref)) else ref"
  let ?newMatcher = "\<lambda>ps. (Inr ps :: string + string list)"
  let ?cfg = "\<lparr>cfg_Port = ''8545'', cfg_URL = ''http://127.0.0.1:8040'', cfg_WSURL = ''/ws'',
      cfg_Allow = [], cfg_RPM = 1000, cfg_NoLimit = [],
      cfg_BlockRangeLimit = 0, cfg_MinGasPrice = 60000000000\<rparr>"
  have "\<exists>s. NewServer ?parse ?resolve ?newMatcher ?cfg = Inr s
           \<and> target s = (''http'', ''127.0.0.1:8040'', [])
           \<and> wsProxy s = ?resolve (''http'', ''127.0.0.1:8040'', []) ([], [], ''/ws'')
           \<and> URL_Parse ?parse ?resolve (''http'', ''127.0.0.1:8040'', []) (cfg_WSURL ?cfg)
                = Inr (wsProxy s)"
    by (rule wsurl_resolved_against_http_origin [where mt = "[]"]) simp_all
  then show ?thesis
    by (simp add: NewServer_def URL_Parse_def)
qed

end
